theory Spec2Isabelle
  imports Main "HOL-Library.Word"
begin

unbundle bit_operations_syntax

section \<open>Data model\<close>

type_synonym u8 = "8 word"
type_synonym u32 = "32 word"
type_synonym u64 = "64 word"

text \<open>
  Modelled from the spec: \<^verbatim>\<open>enum ucode_state\<close> is declared in \<^verbatim>\<open>internal.h\<close>, which is
  not among the sources. The three values the staging code uses are kept (the spec's
  transfer state \<open>{OK, ERROR, TIMEOUT}\<close>).
\<close>

datatype ucode_state = UCODE_OK | UCODE_ERROR | UCODE_TIMEOUT

subsection \<open>Constants of the source\<close>

definition MBOX_REG_NUM :: nat where "MBOX_REG_NUM = 4"
definition MBOX_REG_SIZE :: nat where "MBOX_REG_SIZE = 4"

definition MBOX_CONTROL_OFFSET :: u32 where "MBOX_CONTROL_OFFSET = 0x0"
definition MBOX_STATUS_OFFSET :: u32 where "MBOX_STATUS_OFFSET = 0x4"
definition MBOX_WRDATA_OFFSET :: u32 where "MBOX_WRDATA_OFFSET = 0x8"
definition MBOX_RDDATA_OFFSET :: u32 where "MBOX_RDDATA_OFFSET = 0xc"

text \<open>
  Modelled from the spec: \<^verbatim>\<open>BIT\<close> is a kernel macro outside the sources, \<^verbatim>\<open>BIT(n)\<close> being
  \<^verbatim>\<open>1UL << n\<close>; the spec names the bits (control: bit 0 abort, bit 31 go; status: bit 2
  error, bit 31 ready; response flags: bit 0 success, bit 1 in progress, bit 2 error). Every
  use here is narrowed to a 32-bit register value.
\<close>

definition BIT :: "nat \<Rightarrow> u32" where "BIT n = push_bit n 1"

definition MASK_MBOX_CTRL_ABORT :: u32 where "MASK_MBOX_CTRL_ABORT = BIT 0"
definition MASK_MBOX_CTRL_GO :: u32 where "MASK_MBOX_CTRL_GO = BIT 31"

definition MASK_MBOX_STATUS_ERROR :: u32 where "MASK_MBOX_STATUS_ERROR = BIT 2"
definition MASK_MBOX_STATUS_READY :: u32 where "MASK_MBOX_STATUS_READY = BIT 31"

definition MASK_MBOX_RESP_SUCCESS :: u32 where "MASK_MBOX_RESP_SUCCESS = BIT 0"
definition MASK_MBOX_RESP_PROGRESS :: u32 where "MASK_MBOX_RESP_PROGRESS = BIT 1"
definition MASK_MBOX_RESP_ERROR :: u32 where "MASK_MBOX_RESP_ERROR = BIT 2"

text \<open>
  Modelled from the spec: \<^verbatim>\<open>PCI_VENDOR_ID_INTEL\<close> (\<^verbatim>\<open>linux/pci_ids.h\<close>), \<^verbatim>\<open>PAGE_SIZE\<close>
  and \<^verbatim>\<open>MSEC_PER_SEC\<close> are defined in kernel headers outside the sources. The spec gives
  the per-transaction byte limit as one platform memory page, which is 4 KiB on x86, the
  architecture of this file, and the wait budget as 10,000 ms, that is ten times a thousand
  milliseconds per second; the vendor tag of the identifier word is Intel's PCI vendor id.
\<close>

definition PCI_VENDOR_ID_INTEL :: u32 where "PCI_VENDOR_ID_INTEL = 0x8086"
definition PAGE_SIZE :: u32 where "PAGE_SIZE = 4096"
definition MSEC_PER_SEC :: nat where "MSEC_PER_SEC = 1000"

definition MBOX_CMD_LOAD :: u32 where "MBOX_CMD_LOAD = 0x3"
definition MBOX_OBJ_STAGING :: u32 where "MBOX_OBJ_STAGING = 0xb"
definition MBOX_HDR :: u32 where
  "MBOX_HDR = PCI_VENDOR_ID_INTEL OR push_bit 16 MBOX_OBJ_STAGING"
definition MBOX_HDR_SIZE :: u32 where "MBOX_HDR_SIZE = 16"

definition MBOX_XACTION_LEN :: u32 where "MBOX_XACTION_LEN = PAGE_SIZE"
definition MBOX_XACTION_MAX :: "u32 \<Rightarrow> u32" where "MBOX_XACTION_MAX imgsz = imgsz * 2"
definition MBOX_XACTION_TIMEOUT :: nat where "MBOX_XACTION_TIMEOUT = 10 * MSEC_PER_SEC"

definition STAGING_OFFSET_END :: u32 where "STAGING_OFFSET_END = 0xffffffff"
definition DWORD_SIZE :: "u32 \<Rightarrow> u32" where "DWORD_SIZE s = s div 4"

subsection \<open>The register window and its environment\<close>

text \<open>
  Every access to the mapped window is recorded, in program order: \<open>Readl off v\<close> is
  \<^verbatim>\<open>readl(base + off)\<close> returning \<open>v\<close>, \<open>Writel v off\<close> is \<^verbatim>\<open>writel(v, base + off)\<close>,
  \<open>Msleep n\<close> is \<^verbatim>\<open>msleep(n)\<close>. \<open>Ioremap pa size ok\<close> and \<open>Iounmap\<close> record the mapping calls.
\<close>

datatype io_event =
    Readl u32 u32
  | Writel u32 u32
  | Msleep nat
  | Ioremap u64 nat bool
  | Iounmap

text \<open>
  The kernel log. \<^verbatim>\<open>WARN_ON_ONCE\<close> warns at most once per call site; the sites of the
  source are named. \<^verbatim>\<open>pr_debug_once\<close> prints its message at most once.
\<close>

datatype warn_site = Warn_hdr | Warn_hdr_size | Warn_offset | Warn_ioremap

datatype log_event = Warn warn_site | Pr_err string | Pr_debug string

text \<open>
  The device is the environment: what it answers is a parameter. A read of the status
  register, or of the read-data register, may answer anything; the answer is indexed by
  the number of go strobes written so far and the number of earlier reads of that
  register since the last go strobe. The code is deterministic, so whatever a device
  answers in one run is one such pair of functions. \<open>ioremap_ok\<close> says whether
  \<^verbatim>\<open>ioremap\<close> of a physical address and size succeeds.
\<close>

record hardware =
  ioremap_ok :: "u64 \<Rightarrow> nat \<Rightarrow> bool"
  status_reads :: "nat \<Rightarrow> nat \<Rightarrow> u32"
  rddata_reads :: "nat \<Rightarrow> nat \<Rightarrow> u32"

text \<open>
  The window as the code sees it: \<open>xact\<close> counts the go strobes written so far, \<open>polls\<close>
  and \<open>rds\<close> the reads of the status and of the read-data register since the last go
  strobe; \<open>trace\<close> holds the events so far, oldest first, and \<open>klog\<close> the kernel log.
\<close>

record mbox =
  xact :: nat
  polls :: nat
  rds :: nat
  trace :: "io_event list"
  klog :: "log_event list"

text \<open>
  The payload: bytes at \<^verbatim>\<open>ucode_ptr + i\<close>. A \<^verbatim>\<open>u32 *\<close> into it reads four bytes,
  little-endian (x86).
\<close>

type_synonym memory = "nat \<Rightarrow> u8"

definition load_u32 :: "memory \<Rightarrow> nat \<Rightarrow> u32" where
  "load_u32 mem a =
     ucast (mem a) OR push_bit 8 (ucast (mem (a + 1))) OR
     push_bit 16 (ucast (mem (a + 2))) OR push_bit 24 (ucast (mem (a + 3)))"

text \<open>\<^verbatim>\<open>(u32 *)(ucode_ptr + offset)\<close>, as the array it is indexed as.\<close>

definition chunk_at :: "memory \<Rightarrow> u32 \<Rightarrow> nat \<Rightarrow> u32" where
  "chunk_at mem off i = load_u32 mem (unat off + 4 * i)"

section \<open>Register access\<close>

text \<open>
  The code reads the status and the read-data register only; a read of another register is
  recorded and answers \<open>0\<close>. A write is recorded; a write of the go bit to the control
  register starts the next transaction of the device.
\<close>

definition readl :: "hardware \<Rightarrow> u32 \<Rightarrow> mbox \<Rightarrow> u32 \<times> mbox" where
  "readl hw off st =
     (if off = MBOX_STATUS_OFFSET then
        (let v = status_reads hw (xact st) (polls st)
         in (v, st\<lparr>polls := Suc (polls st), trace := trace st @ [Readl off v]\<rparr>))
      else if off = MBOX_RDDATA_OFFSET then
        (let v = rddata_reads hw (xact st) (rds st)
         in (v, st\<lparr>rds := Suc (rds st), trace := trace st @ [Readl off v]\<rparr>))
      else (0, st\<lparr>trace := trace st @ [Readl off 0]\<rparr>))"

definition writel :: "u32 \<Rightarrow> u32 \<Rightarrow> mbox \<Rightarrow> mbox" where
  "writel v off st =
     (if off = MBOX_CONTROL_OFFSET \<and> v AND MASK_MBOX_CTRL_GO \<noteq> 0 then
        st\<lparr>xact := Suc (xact st), polls := 0, rds := 0, trace := trace st @ [Writel v off]\<rparr>
      else st\<lparr>trace := trace st @ [Writel v off]\<rparr>)"

definition msleep :: "nat \<Rightarrow> mbox \<Rightarrow> mbox" where
  "msleep n st = st\<lparr>trace := trace st @ [Msleep n]\<rparr>"

definition WARN_ON_ONCE :: "warn_site \<Rightarrow> bool \<Rightarrow> mbox \<Rightarrow> mbox" where
  "WARN_ON_ONCE site c st =
     (if c \<and> Warn site \<notin> set (klog st) then st\<lparr>klog := klog st @ [Warn site]\<rparr> else st)"

text \<open>The message as formatted by the caller, without the \<^verbatim>\<open>pr_fmt\<close> prefix and the newline.\<close>

definition pr_err :: "string \<Rightarrow> mbox \<Rightarrow> mbox" where
  "pr_err msg st = st\<lparr>klog := klog st @ [Pr_err msg]\<rparr>"

definition read_mbox_dword :: "hardware \<Rightarrow> mbox \<Rightarrow> u32 \<times> mbox" where
  "read_mbox_dword hw st =
     (case readl hw MBOX_RDDATA_OFFSET st of
        (dword, st1) \<Rightarrow> (dword, writel 0 MBOX_RDDATA_OFFSET st1))"

definition write_mbox_dword :: "u32 \<Rightarrow> mbox \<Rightarrow> mbox" where
  "write_mbox_dword dword st = writel dword MBOX_WRDATA_OFFSET st"

definition abort_xaction :: "mbox \<Rightarrow> mbox" where
  "abort_xaction st = writel MASK_MBOX_CTRL_ABORT MBOX_CONTROL_OFFSET st"

section \<open>Request framer\<close>

text \<open>
  The \<^verbatim>\<open>for (i = 0; i < dwsize; i++)\<close> loop of \<^verbatim>\<open>request_xaction\<close>, from \<open>i\<close> on. The
  counter stays at or below \<open>dwsize\<close>, a quarter of a 32-bit value, so it never wraps.
\<close>

function request_xaction_loop :: "(nat \<Rightarrow> u32) \<Rightarrow> nat \<Rightarrow> nat \<Rightarrow> mbox \<Rightarrow> mbox" where
  "request_xaction_loop chunk dwsize i st =
     (if i < dwsize then
        request_xaction_loop chunk dwsize (Suc i) (write_mbox_dword (chunk i) st)
      else st)"
  by pat_completeness auto
termination
  by (relation "measure (\<lambda>(chunk, dwsize, i, st). dwsize - i)") auto

declare request_xaction_loop.simps [simp del]

definition request_xaction :: "(nat \<Rightarrow> u32) \<Rightarrow> u32 \<Rightarrow> mbox \<Rightarrow> mbox" where
  "request_xaction chunk chunksize st =
     (let dwsize = DWORD_SIZE chunksize;
          st1 = write_mbox_dword MBOX_HDR st;
          st2 = write_mbox_dword (dwsize + DWORD_SIZE MBOX_HDR_SIZE) st1;
          st3 = write_mbox_dword MBOX_CMD_LOAD st2;
          st4 = write_mbox_dword 0 st3;
          st5 = request_xaction_loop chunk (unat dwsize) 0 st4
      in writel MASK_MBOX_CTRL_GO MBOX_CONTROL_OFFSET st5)"

section \<open>Completion waiter\<close>

text \<open>
  The poll loop of \<^verbatim>\<open>wait_for_xaction\<close>, from \<open>timeout\<close> on. The counter stays below
  \<open>MBOX_XACTION_TIMEOUT\<close>, so it never wraps.
\<close>

function wait_for_xaction_loop :: "hardware \<Rightarrow> nat \<Rightarrow> mbox \<Rightarrow> mbox" where
  "wait_for_xaction_loop hw timeout st =
     (if timeout < MBOX_XACTION_TIMEOUT then
        (case readl hw MBOX_STATUS_OFFSET (msleep 1 st) of
           (status, st1) \<Rightarrow>
             if status AND MASK_MBOX_STATUS_READY \<noteq> 0 then st1
             else wait_for_xaction_loop hw (Suc timeout) st1)
      else st)"
  by pat_completeness auto
termination
  by (relation "measure (\<lambda>(hw, timeout, st). MBOX_XACTION_TIMEOUT - timeout)") auto

declare wait_for_xaction_loop.simps [simp del]

definition wait_for_xaction :: "hardware \<Rightarrow> mbox \<Rightarrow> ucode_state \<times> mbox" where
  "wait_for_xaction hw st =
     (case readl hw MBOX_STATUS_OFFSET (wait_for_xaction_loop hw 0 st) of
        (status, st1) \<Rightarrow>
          if status AND MASK_MBOX_STATUS_ERROR \<noteq> 0 then (UCODE_ERROR, st1)
          else if status AND MASK_MBOX_STATUS_READY = 0 then (UCODE_TIMEOUT, st1)
          else (UCODE_OK, st1))"

section \<open>Response decoder\<close>

text \<open>Returns the state, the value stored through \<^verbatim>\<open>offset\<close>, and the window.\<close>

definition read_xaction_response :: "hardware \<Rightarrow> mbox \<Rightarrow> ucode_state \<times> u32 \<times> mbox" where
  "read_xaction_response hw st =
     (case read_mbox_dword hw st of (w0, st1) \<Rightarrow>
      let st2 = WARN_ON_ONCE Warn_hdr (w0 \<noteq> MBOX_HDR) st1 in
      case read_mbox_dword hw st2 of (w1, st3) \<Rightarrow>
      let st4 = WARN_ON_ONCE Warn_hdr_size (w1 \<noteq> DWORD_SIZE MBOX_HDR_SIZE) st3 in
      case read_mbox_dword hw st4 of (off, st5) \<Rightarrow>
      case read_mbox_dword hw st5 of (flag, st6) \<Rightarrow>
        if flag AND MASK_MBOX_RESP_ERROR \<noteq> 0 then (UCODE_ERROR, off, st6)
        else (UCODE_OK, off, st6))"

section \<open>Transfer loop\<close>

text \<open>
  \<^verbatim>\<open>min(MBOX_XACTION_LEN, totalsize - offset)\<close>: the subtraction is on \<^verbatim>\<open>unsigned int\<close>
  and wraps; the comparison with the page size is on the zero-extended values, and the
  result fits 32 bits.
\<close>

definition get_chunksize :: "u32 \<Rightarrow> u32 \<Rightarrow> mbox \<Rightarrow> u32 \<times> mbox" where
  "get_chunksize totalsize off st =
     (min MBOX_XACTION_LEN (totalsize - off), WARN_ON_ONCE Warn_offset (totalsize < off) st)"

text \<open>
  The locals of \<^verbatim>\<open>staging_work\<close> that live across iterations. \<open>state\<close> is \<open>None\<close> while
  the C variable is not yet assigned.
\<close>

record loop_vars =
  xaction_bytes :: u32
  offset :: u32
  state :: "ucode_state option"

text \<open>
  The \<^verbatim>\<open>while (offset != STAGING_OFFSET_END)\<close> loop, run for at most \<open>n\<close> iterations of its
  body. The first component of the result tells whether the loop was left (its condition
  false, or a \<^verbatim>\<open>break\<close>); it is \<open>False\<close> when the body would run once more than \<open>n\<close> times.
\<close>

fun staging_loop ::
  "nat \<Rightarrow> hardware \<Rightarrow> memory \<Rightarrow> u32 \<Rightarrow> loop_vars \<Rightarrow> mbox \<Rightarrow> bool \<times> loop_vars \<times> mbox" where
  "staging_loop 0 hw mem totalsize v st = (offset v = STAGING_OFFSET_END, v, st)"
| "staging_loop (Suc n) hw mem totalsize v st =
     (if offset v \<noteq> STAGING_OFFSET_END then
        (case get_chunksize totalsize (offset v) st of (chunksize, st1) \<Rightarrow>
           if xaction_bytes v + chunksize > MBOX_XACTION_MAX totalsize then
             (True, v\<lparr>state := Some UCODE_TIMEOUT\<rparr>, st1)
           else
             (case wait_for_xaction hw
                     (request_xaction (chunk_at mem (offset v)) chunksize st1) of
                (s, st2) \<Rightarrow>
                  if s \<noteq> UCODE_OK then (True, v\<lparr>state := Some s\<rparr>, st2)
                  else
                    (case read_xaction_response hw st2 of
                       (s', off', st3) \<Rightarrow>
                         if s' \<noteq> UCODE_OK then
                           (True,
                            \<lparr>xaction_bytes = xaction_bytes v + chunksize, offset = off',
                             state = Some s'\<rparr>, st3)
                         else
                           staging_loop n hw mem totalsize
                             \<lparr>xaction_bytes = xaction_bytes v + chunksize, offset = off',
                              state = Some s'\<rparr> st3)))
      else (True, v, st))"

text \<open>
  \<^verbatim>\<open>staging_work\<close> with fuel \<open>n\<close> for its loop: the returned value is \<open>None\<close> when the loop
  has not been left after \<open>n\<close> iterations.
\<close>

definition staging_work ::
  "nat \<Rightarrow> hardware \<Rightarrow> u64 \<Rightarrow> memory \<Rightarrow> u32 \<Rightarrow> mbox \<Rightarrow> bool option \<times> mbox" where
  "staging_work n hw mmio_pa mem totalsize st =
     (let ok = ioremap_ok hw mmio_pa (MBOX_REG_NUM * MBOX_REG_SIZE);
          st0 = st\<lparr>trace := trace st @ [Ioremap mmio_pa (MBOX_REG_NUM * MBOX_REG_SIZE) ok]\<rparr>
      in if \<not> ok then (Some False, WARN_ON_ONCE Warn_ioremap True st0)
         else
           (case staging_loop n hw mem totalsize
                   \<lparr>xaction_bytes = 0, offset = 0, state = None\<rparr> (abort_xaction st0) of
              (False, v, st1) \<Rightarrow> (None, st1)
            | (True, v, st1) \<Rightarrow>
                let st2 = st1\<lparr>trace := trace st1 @ [Iounmap]\<rparr>
                in if state v = Some UCODE_OK then (Some True, st2)
                   else (Some False,
                         pr_err (''Staging failed with '' @
                                 (if state v = Some UCODE_TIMEOUT then ''timeout'' else ''error'')
                                 @ ''.'') st2)))"

section \<open>The placeholders of \<^verbatim>\<open>intel_staging.c\<close>\<close>

text \<open>
  \<^verbatim>\<open>arch/x86/kernel/cpu/microcode/intel_staging.c\<close> has the same \<^verbatim>\<open>abort_xaction\<close>,
  \<^verbatim>\<open>wait_for_xaction\<close>, \<^verbatim>\<open>get_chunksize\<close> and \<^verbatim>\<open>staging_work\<close> as above, around a
  \<^verbatim>\<open>request_xaction\<close> and a \<^verbatim>\<open>read_xaction_response\<close> that are placeholders: the first
  only prints a debug message, the second prints one, leaves \<^verbatim>\<open>*offset\<close> alone and
  returns \<open>UCODE_ERROR\<close>. Their models carry the suffix \<open>_stub\<close>.
\<close>

definition pr_debug_once :: "string \<Rightarrow> mbox \<Rightarrow> mbox" where
  "pr_debug_once msg st =
     (if Pr_debug msg \<notin> set (klog st) then st\<lparr>klog := klog st @ [Pr_debug msg]\<rparr> else st)"

definition request_xaction_stub :: "(nat \<Rightarrow> u32) \<Rightarrow> u32 \<Rightarrow> mbox \<Rightarrow> mbox" where
  "request_xaction_stub chunk chunksize st =
     pr_debug_once ''Need to implement staging mailbox loading code.'' st"

definition read_xaction_response_stub :: "hardware \<Rightarrow> mbox \<Rightarrow> ucode_state \<times> mbox" where
  "read_xaction_response_stub hw st =
     (UCODE_ERROR, pr_debug_once ''Need to implement staging response handler.'' st)"

fun staging_loop_stub ::
  "nat \<Rightarrow> hardware \<Rightarrow> memory \<Rightarrow> u32 \<Rightarrow> loop_vars \<Rightarrow> mbox \<Rightarrow> bool \<times> loop_vars \<times> mbox" where
  "staging_loop_stub 0 hw mem totalsize v st = (offset v = STAGING_OFFSET_END, v, st)"
| "staging_loop_stub (Suc n) hw mem totalsize v st =
     (if offset v \<noteq> STAGING_OFFSET_END then
        (case get_chunksize totalsize (offset v) st of (chunksize, st1) \<Rightarrow>
           if xaction_bytes v + chunksize > MBOX_XACTION_MAX totalsize then
             (True, v\<lparr>state := Some UCODE_TIMEOUT\<rparr>, st1)
           else
             (case wait_for_xaction hw
                     (request_xaction_stub (chunk_at mem (offset v)) chunksize st1) of
                (s, st2) \<Rightarrow>
                  if s \<noteq> UCODE_OK then (True, v\<lparr>state := Some s\<rparr>, st2)
                  else
                    (case read_xaction_response_stub hw st2 of
                       (s', st3) \<Rightarrow>
                         if s' \<noteq> UCODE_OK then
                           (True,
                            \<lparr>xaction_bytes = xaction_bytes v + chunksize, offset = offset v,
                             state = Some s'\<rparr>, st3)
                         else
                           staging_loop_stub n hw mem totalsize
                             \<lparr>xaction_bytes = xaction_bytes v + chunksize, offset = offset v,
                              state = Some s'\<rparr> st3)))
      else (True, v, st))"

definition staging_work_stub ::
  "nat \<Rightarrow> hardware \<Rightarrow> u64 \<Rightarrow> memory \<Rightarrow> u32 \<Rightarrow> mbox \<Rightarrow> bool option \<times> mbox" where
  "staging_work_stub n hw mmio_pa mem totalsize st =
     (let ok = ioremap_ok hw mmio_pa (MBOX_REG_NUM * MBOX_REG_SIZE);
          st0 = st\<lparr>trace := trace st @ [Ioremap mmio_pa (MBOX_REG_NUM * MBOX_REG_SIZE) ok]\<rparr>
      in if \<not> ok then (Some False, WARN_ON_ONCE Warn_ioremap True st0)
         else
           (case staging_loop_stub n hw mem totalsize
                   \<lparr>xaction_bytes = 0, offset = 0, state = None\<rparr> (abort_xaction st0) of
              (False, v, st1) \<Rightarrow> (None, st1)
            | (True, v, st1) \<Rightarrow>
                let st2 = st1\<lparr>trace := trace st1 @ [Iounmap]\<rparr>
                in if state v = Some UCODE_OK then (Some True, st2)
                   else (Some False,
                         pr_err (''Staging failed with '' @
                                 (if state v = Some UCODE_TIMEOUT then ''timeout'' else ''error'')
                                 @ ''.'') st2)))"

section \<open>Observations on a trace\<close>


text \<open>
  \<open>rd_acked es\<close>: every read of the read-data register in \<open>es\<close> is followed at once by a
  write of zero to the same register.
\<close>

fun rd_acked :: "io_event list \<Rightarrow> bool" where
  "rd_acked [] = True"
| "rd_acked (Readl off v # es) =
     ((if off = MBOX_RDDATA_OFFSET then take 1 es = [Writel 0 MBOX_RDDATA_OFFSET] else True)
      \<and> rd_acked es)"
| "rd_acked (e # es) = rd_acked es"

text \<open>The go strobes in a trace: one per request sent.\<close>

fun is_go :: "io_event \<Rightarrow> bool" where
  "is_go (Writel v off) = (off = MBOX_CONTROL_OFFSET \<and> bit v 31)"
| "is_go e = False"

definition go_count :: "io_event list \<Rightarrow> nat" where
  "go_count es = length (filter is_go es)"

text \<open>The writes to the write-data register in a trace: header and payload dwords.\<close>

fun is_wrdata :: "io_event \<Rightarrow> bool" where
  "is_wrdata (Writel v off) = (off = MBOX_WRDATA_OFFSET)"
| "is_wrdata e = False"

definition wrdata_count :: "io_event list \<Rightarrow> nat" where
  "wrdata_count es = length (filter is_wrdata es)"

text \<open>The events a run adds to the trace it started with.\<close>

definition emitted :: "mbox \<Rightarrow> mbox \<Rightarrow> io_event list" where
  "emitted st st' = drop (length (trace st)) (trace st')"

text \<open>
  \<open>extends st st'\<close>: \<open>st'\<close> continues \<open>st\<close>. The trace only grew, the go counter of the
  window counts the go strobes written, and every read of the read-data register among
  the new events is acknowledged.
\<close>

definition extends :: "mbox \<Rightarrow> mbox \<Rightarrow> bool" where
  "extends st st' =
     (take (length (trace st)) (trace st') = trace st \<and>
      xact st' = xact st + go_count (emitted st st') \<and>
      rd_acked (emitted st st'))"

text \<open>A window with no history, \<open>k\<close> go strobes into the device's life.\<close>

definition fresh :: "nat \<Rightarrow> mbox" where
  "fresh k = \<lparr>xact = k, polls = 0, rds = 0, trace = [], klog = []\<rparr>"

text \<open>
  Transaction \<open>k\<close> (the one started by the \<open>k\<close>-th go strobe) is classified OK by both
  the completion wait and the response decoder.
\<close>

definition xaction_ok :: "hardware \<Rightarrow> nat \<Rightarrow> bool" where
  "xaction_ok hw k =
     (fst (wait_for_xaction hw (fresh k)) = UCODE_OK \<and>
      fst (read_xaction_response hw (fresh k)) = UCODE_OK)"

text \<open>
  The window after one complete transaction of the loop body at \<open>v\<close>: request sent, wait
  over, response read.
\<close>

definition xaction_window :: "hardware \<Rightarrow> memory \<Rightarrow> u32 \<Rightarrow> loop_vars \<Rightarrow> mbox \<Rightarrow> mbox" where
  "xaction_window hw mem totalsize v st =
     snd (snd (read_xaction_response hw
       (snd (wait_for_xaction hw
         (request_xaction (chunk_at mem (offset v))
            (fst (get_chunksize totalsize (offset v) st))
            (snd (get_chunksize totalsize (offset v) st)))))))"

text \<open>Example environments and payloads.\<close>

definition mem0 :: memory where "mem0 = (\<lambda>a. 0)"

text \<open>
  A device that is ready at the first poll of every transaction and answers every request
  with a well-formed response header, the next offset \<open>next_off\<close> and the success flag.
\<close>

definition hw_reply :: "u32 \<Rightarrow> hardware" where
  "hw_reply next_off =
     \<lparr>ioremap_ok = (\<lambda>pa n. True),
      status_reads = (\<lambda>k i. 0x80000000),
      rddata_reads = (\<lambda>k i. if i = 0 then 0xb8086 else if i = 1 then 4
                              else if i = 2 then next_off else 1)\<rparr>"

text \<open>The same device behind a mapping that fails.\<close>

definition hw_unmapped :: hardware where
  "hw_unmapped = (hw_reply 0xffffffff)\<lparr>ioremap_ok := (\<lambda>pa n. False)\<rparr>"

text \<open>The number of chunks of a payload of \<open>S\<close> bytes: \<open>S / PAGE_SIZE\<close>, rounded up.\<close>

definition chunk_count :: "nat \<Rightarrow> nat" where
  "chunk_count S = (S + 4095) div 4096"

text \<open>
  What an in-sequence response reports after a chunk of \<open>chunksize\<close> bytes sent from offset
  \<open>off\<close>: the offset past that chunk, or the end marker once the chunk reaches the last byte
  of the payload.
\<close>

definition next_offset :: "u32 \<Rightarrow> u32 \<Rightarrow> u32 \<Rightarrow> u32" where
  "next_offset totalsize off chunksize =
     (if unat off + unat chunksize < unat totalsize then off + chunksize
      else STAGING_OFFSET_END)"

text \<open>
  \<open>in_sequence n hw totalsize k off\<close>: with \<open>k\<close> go strobes written and the transfer at
  offset \<open>off\<close>, the device answers the next \<open>n\<close> transactions in sequence, as far as the
  transfer goes. Each one is classified OK, and its response reports the offset past the
  chunk just sent, the one \<open>get_chunksize\<close> cut at the current offset, or the end marker
  after the last byte.
\<close>

fun in_sequence :: "nat \<Rightarrow> hardware \<Rightarrow> u32 \<Rightarrow> nat \<Rightarrow> u32 \<Rightarrow> bool" where
  "in_sequence 0 hw totalsize k off = True"
| "in_sequence (Suc n) hw totalsize k off =
     (if off = STAGING_OFFSET_END then True
      else
        xaction_ok hw (Suc k) \<and>
        rddata_reads hw (Suc k) 2 =
          next_offset totalsize off (fst (get_chunksize totalsize off (fresh k))) \<and>
        in_sequence n hw totalsize (Suc k) (rddata_reads hw (Suc k) 2))"

text \<open>A device that is always ready and answers a payload of \<open>S\<close> bytes in sequence.\<close>

definition hw_in_sequence :: "nat \<Rightarrow> hardware" where
  "hw_in_sequence S =
     \<lparr>ioremap_ok = (\<lambda>pa n. True),
      status_reads = (\<lambda>k i. 0x80000000),
      rddata_reads = (\<lambda>k i. if i = 0 then 0xb8086 else if i = 1 then 4
                              else if i = 2 then
                                (if k * 4096 < S then word_of_nat (k * 4096) else 0xffffffff)
                              else 1)\<rparr>"

text \<open>
  A device that leaves the ready bit clear for the first \<open>10000\<close> status reads of a
  transaction and sets it from then on; its responses are those of \<open>hw_reply\<close>.
\<close>

definition hw_late_ready :: hardware where
  "hw_late_ready =
     (hw_reply 0xffffffff)\<lparr>status_reads := (\<lambda>k i. if i < 10000 then 0 else 0x80000000)\<rparr>"

text \<open>A device that never sets a status bit.\<close>

definition hw_silent :: hardware where
  "hw_silent = (hw_reply 0xffffffff)\<lparr>status_reads := (\<lambda>k i. 0)\<rparr>"

section \<open>Properties\<close>

lemma MBOX_HDR_value: "MBOX_HDR = 0xb8086"
  by (simp add: MBOX_HDR_def PCI_VENDOR_ID_INTEL_def MBOX_OBJ_STAGING_def)

lemmas mbox_offsets = MBOX_CONTROL_OFFSET_def MBOX_STATUS_OFFSET_def MBOX_WRDATA_OFFSET_def
  MBOX_RDDATA_OFFSET_def

lemma write_mbox_dword_simps [simp]:
  "trace (write_mbox_dword d st) = trace st @ [Writel d MBOX_WRDATA_OFFSET]"
  "klog (write_mbox_dword d st) = klog st"
  "xact (write_mbox_dword d st) = xact st"
  "polls (write_mbox_dword d st) = polls st"
  "rds (write_mbox_dword d st) = rds st"
  by (simp_all add: write_mbox_dword_def writel_def mbox_offsets)

lemma request_xaction_loop_trace:
  "trace (request_xaction_loop chunk dwsize i st) =
     trace st @ map (\<lambda>j. Writel (chunk j) MBOX_WRDATA_OFFSET) [i..<dwsize]"
proof (induction chunk dwsize i st rule: request_xaction_loop.induct)
  case (1 chunk dwsize i st)
  show ?case
  proof (cases "i < dwsize")
    case True
    then show ?thesis
      using 1 by (subst request_xaction_loop.simps) (simp add: upt_conv_Cons)
  next
    case False
    then show ?thesis by (subst request_xaction_loop.simps) simp
  qed
qed

lemma request_xaction_loop_fields [simp]:
  "klog (request_xaction_loop chunk dwsize i st) = klog st"
  "xact (request_xaction_loop chunk dwsize i st) = xact st"
  "polls (request_xaction_loop chunk dwsize i st) = polls st"
  "rds (request_xaction_loop chunk dwsize i st) = rds st"
  by (induction chunk dwsize i st rule: request_xaction_loop.induct;
      subst request_xaction_loop.simps; simp)+

lemma GO_nonzero: "MASK_MBOX_CTRL_GO AND MASK_MBOX_CTRL_GO \<noteq> 0"
  by (simp add: MASK_MBOX_CTRL_GO_def BIT_def)

lemma request_xaction_events:
  "trace (request_xaction chunk L st) =
     trace st @
     [Writel MBOX_HDR MBOX_WRDATA_OFFSET,
      Writel (L div 4 + 4) MBOX_WRDATA_OFFSET,
      Writel 0x3 MBOX_WRDATA_OFFSET,
      Writel 0 MBOX_WRDATA_OFFSET] @
     map (\<lambda>j. Writel (chunk j) MBOX_WRDATA_OFFSET) [0..<unat L div 4] @
     [Writel (push_bit 31 1) MBOX_CONTROL_OFFSET]"
  by (simp add: request_xaction_def Let_def writel_def request_xaction_loop_trace
      DWORD_SIZE_def MBOX_HDR_SIZE_def MBOX_CMD_LOAD_def MASK_MBOX_CTRL_GO_def BIT_def
      unat_div)

text \<open>
  Claim C6. For a chunk of byte length \<open>L\<close>, \<open>request_xaction\<close> writes to the write-data
  register, in this order and nothing else: the identifier \<open>MBOX_HDR\<close> (the Intel vendor
  id combined with the staging object tag shifted by 16), the length word \<open>L div 4 + 4\<close>,
  the command word \<open>0x3\<close>, a zero word, and the \<open>L div 4\<close> payload dwords
  \<open>chunk 0, ..., chunk (L div 4 - 1)\<close>; only then it writes the go bit (bit 31) to the
  control register.
\<close>

theorem request_xaction_trace:
  "trace (request_xaction chunk L st) =
     trace st @
     [Writel MBOX_HDR MBOX_WRDATA_OFFSET,
      Writel (L div 4 + 4) MBOX_WRDATA_OFFSET,
      Writel 0x3 MBOX_WRDATA_OFFSET,
      Writel 0 MBOX_WRDATA_OFFSET] @
     map (\<lambda>j. Writel (chunk j) MBOX_WRDATA_OFFSET) [0..<unat L div 4] @
     [Writel (push_bit 31 1) MBOX_CONTROL_OFFSET] \<and>
   MBOX_HDR = PCI_VENDOR_ID_INTEL OR push_bit 16 MBOX_OBJ_STAGING \<and>
   MBOX_WRDATA_OFFSET = 0x8 \<and> MBOX_CONTROL_OFFSET = 0x0"
  by (simp add: request_xaction_events MBOX_HDR_def mbox_offsets)

lemma msleep_simps [simp]:
  "trace (msleep n st) = trace st @ [Msleep n]"
  "klog (msleep n st) = klog st"
  "xact (msleep n st) = xact st"
  "polls (msleep n st) = polls st"
  "rds (msleep n st) = rds st"
  by (simp_all add: msleep_def)

lemma readl_status_simps [simp]:
  "fst (readl hw MBOX_STATUS_OFFSET st) = status_reads hw (xact st) (polls st)"
  "trace (snd (readl hw MBOX_STATUS_OFFSET st)) =
     trace st @ [Readl MBOX_STATUS_OFFSET (status_reads hw (xact st) (polls st))]"
  "klog (snd (readl hw MBOX_STATUS_OFFSET st)) = klog st"
  "xact (snd (readl hw MBOX_STATUS_OFFSET st)) = xact st"
  "polls (snd (readl hw MBOX_STATUS_OFFSET st)) = Suc (polls st)"
  "rds (snd (readl hw MBOX_STATUS_OFFSET st)) = rds st"
  by (simp_all add: readl_def Let_def)

text \<open>One poll: sleep, then read the status register.\<close>

lemma wait_loop_unfold:
  "wait_for_xaction_loop hw t st =
     (if t < MBOX_XACTION_TIMEOUT then
        (if fst (readl hw MBOX_STATUS_OFFSET (msleep 1 st)) AND MASK_MBOX_STATUS_READY \<noteq> 0
         then snd (readl hw MBOX_STATUS_OFFSET (msleep 1 st))
         else wait_for_xaction_loop hw (Suc t) (snd (readl hw MBOX_STATUS_OFFSET (msleep 1 st))))
      else st)"
  by (subst wait_for_xaction_loop.simps) (simp add: case_prod_beta)

lemma wait_loop_fields0:
  "klog (wait_for_xaction_loop hw t st) = klog st \<and>
   xact (wait_for_xaction_loop hw t st) = xact st \<and>
   rds (wait_for_xaction_loop hw t st) = rds st"
proof (induction hw t st rule: wait_for_xaction_loop.induct)
  case (1 hw t st)
  note IH = 1 [OF _ prod.collapse]
  show ?case
    unfolding wait_loop_unfold [of hw t st] using IH by simp
qed

lemma wait_loop_fields [simp]:
  "klog (wait_for_xaction_loop hw t st) = klog st"
  "xact (wait_for_xaction_loop hw t st) = xact st"
  "rds (wait_for_xaction_loop hw t st) = rds st"
  using wait_loop_fields0 [of hw t st] by simp_all

text \<open>The poll loop reads the status register at most \<open>MBOX_XACTION_TIMEOUT - t\<close> times.\<close>

lemma wait_loop_polls:
  "polls st \<le> polls (wait_for_xaction_loop hw t st) \<and>
   polls (wait_for_xaction_loop hw t st) \<le> polls st + (MBOX_XACTION_TIMEOUT - t)"
proof (induction hw t st rule: wait_for_xaction_loop.induct)
  case (1 hw t st)
  note IH = 1 [OF _ prod.collapse]
  show ?case
    unfolding wait_loop_unfold [of hw t st] using IH by auto
qed

text \<open>
  What the poll loop does depends on the device's answers only: two windows with the same
  go and status-read counts are taken through the same events.
\<close>

lemma wait_loop_frame:
  "\<exists>p evs. \<forall>st. xact st = k \<and> polls st = p0 \<longrightarrow>
      wait_for_xaction_loop hw t st = st\<lparr>polls := p, trace := trace st @ evs\<rparr>"
proof (induction "MBOX_XACTION_TIMEOUT - t" arbitrary: t p0)
  case 0
  then have "\<forall>st. wait_for_xaction_loop hw t st = st\<lparr>polls := p0, trace := trace st @ []\<rparr> \<or> polls st \<noteq> p0"
    by (subst wait_loop_unfold) auto
  then show ?case by blast
next
  case (Suc m)
  then have t: "t < MBOX_XACTION_TIMEOUT" and m: "m = MBOX_XACTION_TIMEOUT - Suc t"
    by auto
  let ?v = "status_reads hw k p0"
  show ?case
  proof (cases "?v AND MASK_MBOX_STATUS_READY \<noteq> 0")
    case True
    have "\<forall>st. xact st = k \<and> polls st = p0 \<longrightarrow>
      wait_for_xaction_loop hw t st =
        st\<lparr>polls := Suc p0, trace := trace st @ [Msleep 1, Readl MBOX_STATUS_OFFSET ?v]\<rparr>"
      using True t by (subst wait_loop_unfold) (auto simp: readl_def msleep_def Let_def)
    then show ?thesis by blast
  next
    case False
    from Suc.hyps(1) [OF m, of "Suc p0"] obtain p evs where
      pe: "\<forall>st. xact st = k \<and> polls st = Suc p0 \<longrightarrow>
        wait_for_xaction_loop hw (Suc t) st = st\<lparr>polls := p, trace := trace st @ evs\<rparr>"
      by blast
    have "\<forall>st. xact st = k \<and> polls st = p0 \<longrightarrow>
      wait_for_xaction_loop hw t st =
        st\<lparr>polls := p, trace := trace st @ [Msleep 1, Readl MBOX_STATUS_OFFSET ?v] @ evs\<rparr>"
    proof (intro allI impI)
      fix st :: mbox
      assume a: "xact st = k \<and> polls st = p0"
      let ?st1 = "snd (readl hw MBOX_STATUS_OFFSET (msleep 1 st))"
      have "xact ?st1 = k \<and> polls ?st1 = Suc p0" using a by simp
      with pe have "wait_for_xaction_loop hw (Suc t) ?st1 = ?st1\<lparr>polls := p, trace := trace ?st1 @ evs\<rparr>"
        by blast
      then show "wait_for_xaction_loop hw t st =
        st\<lparr>polls := p, trace := trace st @ [Msleep 1, Readl MBOX_STATUS_OFFSET ?v] @ evs\<rparr>"
        using False t a by (subst wait_loop_unfold) (simp add: readl_def msleep_def Let_def)
    qed
    then show ?thesis by blast
  qed
qed

lemma mask_bit_iff [simp]:
  "(w AND MASK_MBOX_STATUS_ERROR \<noteq> 0) = bit w 2"
  "(w AND MASK_MBOX_STATUS_READY \<noteq> 0) = bit w 31"
  "(w AND MASK_MBOX_STATUS_ERROR = 0) = (\<not> bit w 2)"
  "(w AND MASK_MBOX_STATUS_READY = 0) = (\<not> bit w 31)"
  "(w AND MASK_MBOX_RESP_ERROR \<noteq> 0) = bit w 2"
  "(w AND MASK_MBOX_CTRL_GO \<noteq> 0) = bit w 31"
  for w :: u32
  by (simp_all only: MASK_MBOX_STATUS_ERROR_def MASK_MBOX_STATUS_READY_def
      MASK_MBOX_RESP_ERROR_def MASK_MBOX_CTRL_GO_def BIT_def
      push_bit_of_1 and_exp_eq_0_iff_not_bit not_not)

lemma wait_for_xaction_unfold:
  "wait_for_xaction hw st =
     (let st1 = wait_for_xaction_loop hw 0 st;
          status = status_reads hw (xact st) (polls st1)
      in (if bit status 2 then UCODE_ERROR
          else if bit status 31 then UCODE_OK else UCODE_TIMEOUT,
          st1\<lparr>polls := Suc (polls st1),
              trace := trace st1 @ [Readl MBOX_STATUS_OFFSET status]\<rparr>))"
  by (simp add: wait_for_xaction_def readl_def Let_def)

text \<open>
  Claim C4. The completion waiter classifies by the status value of its read after the
  poll loop, the last event of its trace: error (bit 2) set gives \<open>UCODE_ERROR\<close>, also
  when ready (bit 31) is set in the same value; ready set and error clear gives
  \<open>UCODE_OK\<close>; anything else gives \<open>UCODE_TIMEOUT\<close>. (The function is the same in both
  source files.)
\<close>

theorem wait_for_xaction_error_first:
  "(case wait_for_xaction hw st of
      (r, st') \<Rightarrow>
        (let status = status_reads hw (xact st) (polls st' - 1)
         in last (trace st') = Readl MBOX_STATUS_OFFSET status \<and>
            r = (if bit status 2 then UCODE_ERROR
                 else if bit status 31 then UCODE_OK else UCODE_TIMEOUT)))"
  by (simp add: wait_for_xaction_unfold Let_def)

lemma wait_for_xaction_fields [simp]:
  "klog (snd (wait_for_xaction hw st)) = klog st"
  "xact (snd (wait_for_xaction hw st)) = xact st"
  "rds (snd (wait_for_xaction hw st)) = rds st"
  by (simp_all add: wait_for_xaction_unfold Let_def)

lemma wait_for_xaction_frame:
  "\<exists>r p evs. \<forall>st. xact st = k \<and> polls st = p0 \<longrightarrow>
      wait_for_xaction hw st = (r, st\<lparr>polls := p, trace := trace st @ evs\<rparr>)"
proof -
  obtain p evs where pe: "\<forall>st. xact st = k \<and> polls st = p0 \<longrightarrow>
      wait_for_xaction_loop hw 0 st = st\<lparr>polls := p, trace := trace st @ evs\<rparr>"
    using wait_loop_frame [of k p0 hw 0] by blast
  let ?v = "status_reads hw k p"
  let ?r = "if bit ?v 2 then UCODE_ERROR else if bit ?v 31 then UCODE_OK else UCODE_TIMEOUT"
  have "\<forall>st. xact st = k \<and> polls st = p0 \<longrightarrow>
      wait_for_xaction hw st =
        (?r, st\<lparr>polls := Suc p, trace := trace st @ (evs @ [Readl MBOX_STATUS_OFFSET ?v])\<rparr>)"
    using pe by (simp add: wait_for_xaction_unfold Let_def)
  then show ?thesis by blast
qed

text \<open>
  When none of the remaining polls sees the ready bit, the loop runs to its bound: every
  poll sleeps one millisecond and reads the status register once.
\<close>

lemma wait_loop_exhausted:
  "(\<And>i. i < MBOX_XACTION_TIMEOUT - t \<Longrightarrow> \<not> bit (status_reads hw (xact st) (polls st + i)) 31) \<Longrightarrow>
   wait_for_xaction_loop hw t st =
     st\<lparr>polls := polls st + (MBOX_XACTION_TIMEOUT - t),
        trace := trace st @
          concat (map (\<lambda>i. [Msleep 1,
                            Readl MBOX_STATUS_OFFSET (status_reads hw (xact st) (polls st + i))])
                      [0..<MBOX_XACTION_TIMEOUT - t])\<rparr>"
proof (induction "MBOX_XACTION_TIMEOUT - t" arbitrary: t st)
  case 0
  then show ?case by (subst wait_loop_unfold) simp
next
  case (Suc m)
  then have t: "t < MBOX_XACTION_TIMEOUT" and m: "m = MBOX_XACTION_TIMEOUT - Suc t"
    and d: "MBOX_XACTION_TIMEOUT - t = Suc m"
    by auto
  let ?st1 = "snd (readl hw MBOX_STATUS_OFFSET (msleep 1 st))"
  have nr: "\<not> bit (status_reads hw (xact st) (polls st)) 31"
    using Suc.prems [of 0] t by simp
  have "\<And>i. i < MBOX_XACTION_TIMEOUT - Suc t \<Longrightarrow>
          \<not> bit (status_reads hw (xact ?st1) (polls ?st1 + i)) 31"
    using Suc.prems [of "Suc _"] by simp
  from Suc.hyps(1) [OF m this]
  have IH: "wait_for_xaction_loop hw (Suc t) ?st1 =
     ?st1\<lparr>polls := polls ?st1 + m,
        trace := trace ?st1 @
          concat (map (\<lambda>i. [Msleep 1,
                            Readl MBOX_STATUS_OFFSET (status_reads hw (xact st) (Suc (polls st + i)))])
                      [0..<m])\<rparr>"
    using m by simp
  have shift: "map (\<lambda>i. [Msleep 1, Readl MBOX_STATUS_OFFSET (status_reads hw (xact st) (polls st + i))]) [0..<Suc m]
     = [Msleep 1, Readl MBOX_STATUS_OFFSET (status_reads hw (xact st) (polls st))] #
       map (\<lambda>i. [Msleep 1, Readl MBOX_STATUS_OFFSET (status_reads hw (xact st) (Suc (polls st + i)))]) [0..<m]"
    by (simp only: upt_conv_Cons [of 0 "Suc m"] map_Suc_upt [symmetric]) (simp add: comp_def del: upt_Suc)
  have st1: "?st1 = st\<lparr>polls := Suc (polls st),
      trace := trace st @ [Msleep 1, Readl MBOX_STATUS_OFFSET (status_reads hw (xact st) (polls st))]\<rparr>"
    by (simp add: readl_def msleep_def Let_def)
  have "wait_for_xaction_loop hw t st = wait_for_xaction_loop hw (Suc t) ?st1"
    by (subst wait_loop_unfold) (simp add: t nr)
  also note IH
  finally show ?case
    unfolding d shift by (simp add: st1)
qed


lemma read_mbox_dword_unfold:
  "read_mbox_dword hw st =
     (rddata_reads hw (xact st) (rds st),
      st\<lparr>rds := Suc (rds st),
         trace := trace st @ [Readl MBOX_RDDATA_OFFSET (rddata_reads hw (xact st) (rds st)),
                              Writel 0 MBOX_RDDATA_OFFSET]\<rparr>)"
  by (simp add: read_mbox_dword_def readl_def writel_def Let_def mbox_offsets)

lemma WARN_ON_ONCE_simps [simp]:
  "trace (WARN_ON_ONCE site c st) = trace st"
  "xact (WARN_ON_ONCE site c st) = xact st"
  "polls (WARN_ON_ONCE site c st) = polls st"
  "rds (WARN_ON_ONCE site c st) = rds st"
  by (simp_all add: WARN_ON_ONCE_def)

lemma read_xaction_response_unfold:
  "read_xaction_response hw st =
     (if bit (rddata_reads hw (xact st) (rds st + 3)) 2 then UCODE_ERROR else UCODE_OK,
      rddata_reads hw (xact st) (rds st + 2),
      st\<lparr>rds := rds st + 4,
         trace := trace st @
           [Readl MBOX_RDDATA_OFFSET (rddata_reads hw (xact st) (rds st)),
            Writel 0 MBOX_RDDATA_OFFSET,
            Readl MBOX_RDDATA_OFFSET (rddata_reads hw (xact st) (rds st + 1)),
            Writel 0 MBOX_RDDATA_OFFSET,
            Readl MBOX_RDDATA_OFFSET (rddata_reads hw (xact st) (rds st + 2)),
            Writel 0 MBOX_RDDATA_OFFSET,
            Readl MBOX_RDDATA_OFFSET (rddata_reads hw (xact st) (rds st + 3)),
            Writel 0 MBOX_RDDATA_OFFSET],
         klog := klog (WARN_ON_ONCE Warn_hdr_size
                        (rddata_reads hw (xact st) (rds st + 1) \<noteq> DWORD_SIZE MBOX_HDR_SIZE)
                        (WARN_ON_ONCE Warn_hdr
                          (rddata_reads hw (xact st) (rds st) \<noteq> MBOX_HDR) st))\<rparr>)"
  by (simp add: read_xaction_response_def read_mbox_dword_unfold Let_def WARN_ON_ONCE_def
      numeral_3_eq_3 numeral_2_eq_2)


lemma rd_acked_append: "rd_acked xs \<Longrightarrow> rd_acked (xs @ ys) = rd_acked ys"
proof (induction xs rule: rd_acked.induct)
  case (2 off v es)
  then show ?case by (cases es) (auto split: if_splits)
qed simp_all

lemma rd_acked_appendI: "rd_acked xs \<Longrightarrow> rd_acked ys \<Longrightarrow> rd_acked (xs @ ys)"
  by (simp add: rd_acked_append)

lemma offsets_distinct [simp]:
  "MBOX_CONTROL_OFFSET \<noteq> MBOX_STATUS_OFFSET" "MBOX_STATUS_OFFSET \<noteq> MBOX_CONTROL_OFFSET"
  "MBOX_CONTROL_OFFSET \<noteq> MBOX_WRDATA_OFFSET" "MBOX_WRDATA_OFFSET \<noteq> MBOX_CONTROL_OFFSET"
  "MBOX_CONTROL_OFFSET \<noteq> MBOX_RDDATA_OFFSET" "MBOX_RDDATA_OFFSET \<noteq> MBOX_CONTROL_OFFSET"
  "MBOX_STATUS_OFFSET \<noteq> MBOX_WRDATA_OFFSET" "MBOX_WRDATA_OFFSET \<noteq> MBOX_STATUS_OFFSET"
  "MBOX_STATUS_OFFSET \<noteq> MBOX_RDDATA_OFFSET" "MBOX_RDDATA_OFFSET \<noteq> MBOX_STATUS_OFFSET"
  "MBOX_WRDATA_OFFSET \<noteq> MBOX_RDDATA_OFFSET" "MBOX_RDDATA_OFFSET \<noteq> MBOX_WRDATA_OFFSET"
  by (simp_all add: mbox_offsets)

lemma extendsI:
  "trace st' = trace st @ evs \<Longrightarrow> xact st' = xact st + go_count evs \<Longrightarrow> rd_acked evs \<Longrightarrow>
   extends st st'"
  by (simp add: extends_def emitted_def)

lemma extendsD:
  "extends st st' \<Longrightarrow>
   trace st' = trace st @ emitted st st' \<and> xact st' = xact st + go_count (emitted st st') \<and>
   rd_acked (emitted st st')"
  unfolding extends_def emitted_def
  by (metis append_take_drop_id)

lemma go_count_append [simp]: "go_count (xs @ ys) = go_count xs + go_count ys"
  by (simp add: go_count_def)

lemma go_count_simps [simp]:
  "go_count [] = 0"
  "go_count (e # es) = (if is_go e then 1 else 0) + go_count es"
  by (simp_all add: go_count_def)

lemma extends_refl [simp]: "extends st st"
  by (rule extendsI [where evs = "[]"]) simp_all

lemma extends_trans [trans]: "extends a b \<Longrightarrow> extends b c \<Longrightarrow> extends a c"
proof -
  assume ab: "extends a b" and bc: "extends b c"
  note A = extendsD [OF ab] and B = extendsD [OF bc]
  show ?thesis
    by (rule extendsI [where evs = "emitted a b @ emitted b c"])
       (use A B in \<open>simp_all add: rd_acked_append\<close>)
qed

lemma emitted_trans:
  assumes "extends a b" and "extends b c"
  shows "emitted a c = emitted a b @ emitted b c"
proof -
  have tc: "trace c = trace a @ (emitted a b @ emitted b c)"
    using extendsD [OF assms(1)] extendsD [OF assms(2)] by simp
  show ?thesis
    unfolding emitted_def [of a c] tc by simp
qed

lemma extends_writel: "extends st (writel v off st)"
  by (rule extendsI [where evs = "[Writel v off]"])
     (auto simp: writel_def)

lemma extends_write_mbox_dword: "extends st (write_mbox_dword d st)"
  unfolding write_mbox_dword_def by (rule extends_writel)

lemma extends_msleep: "extends st (msleep n st)"
  by (rule extendsI [where evs = "[Msleep n]"]) simp_all

lemma extends_readl_status: "extends st (snd (readl hw MBOX_STATUS_OFFSET st))"
  by (rule extendsI [where evs = "[Readl MBOX_STATUS_OFFSET (status_reads hw (xact st) (polls st))]"])
     simp_all

lemma extends_read_mbox_dword: "extends st (snd (read_mbox_dword hw st))"
  by (rule extendsI [where evs = "[Readl MBOX_RDDATA_OFFSET (rddata_reads hw (xact st) (rds st)),
                              Writel 0 MBOX_RDDATA_OFFSET]"])
     (simp_all add: read_mbox_dword_unfold)

lemma extends_WARN_ON_ONCE: "extends st (WARN_ON_ONCE site c st)"
  by (rule extendsI [where evs = "[]"]) simp_all

lemma extends_request_xaction_loop: "extends st (request_xaction_loop chunk dwsize i st)"
proof (induction chunk dwsize i st rule: request_xaction_loop.induct)
  case (1 chunk dwsize i st)
  show ?case
  proof (cases "i < dwsize")
    case True
    from 1 [OF True] have "extends (write_mbox_dword (chunk i) st)
        (request_xaction_loop chunk dwsize (Suc i) (write_mbox_dword (chunk i) st))" .
    with extends_write_mbox_dword
    have "extends st (request_xaction_loop chunk dwsize (Suc i) (write_mbox_dword (chunk i) st))"
      by (rule extends_trans)
    then show ?thesis using True by (subst request_xaction_loop.simps) simp
  next
    case False
    then show ?thesis by (subst request_xaction_loop.simps) simp
  qed
qed

lemma extends_request_xaction: "extends st (request_xaction chunk L st)"
proof -
  let ?dw = "DWORD_SIZE L"
  let ?s1 = "write_mbox_dword MBOX_HDR st"
  let ?s2 = "write_mbox_dword (?dw + DWORD_SIZE MBOX_HDR_SIZE) ?s1"
  let ?s3 = "write_mbox_dword MBOX_CMD_LOAD ?s2"
  let ?s4 = "write_mbox_dword 0 ?s3"
  let ?s5 = "request_xaction_loop chunk (unat ?dw) 0 ?s4"
  have "extends st ?s1" by (rule extends_write_mbox_dword)
  also have "extends ?s1 ?s2" by (rule extends_write_mbox_dword)
  also have "extends ?s2 ?s3" by (rule extends_write_mbox_dword)
  also have "extends ?s3 ?s4" by (rule extends_write_mbox_dword)
  also have "extends ?s4 ?s5" by (rule extends_request_xaction_loop)
  also have "extends ?s5 (writel MASK_MBOX_CTRL_GO MBOX_CONTROL_OFFSET ?s5)"
    by (rule extends_writel)
  finally show ?thesis by (simp add: request_xaction_def Let_def)
qed

lemma extends_wait_loop: "extends st (wait_for_xaction_loop hw t st)"
proof (induction hw t st rule: wait_for_xaction_loop.induct)
  case (1 hw t st)
  note IH = 1 [OF _ prod.collapse]
  have step: "extends st (snd (readl hw MBOX_STATUS_OFFSET (msleep 1 st)))"
    by (rule extends_trans [OF extends_msleep extends_readl_status])
  show ?case
  proof (cases "t < MBOX_XACTION_TIMEOUT \<and>
      \<not> (fst (readl hw MBOX_STATUS_OFFSET (msleep 1 st)) AND MASK_MBOX_STATUS_READY \<noteq> 0)")
    case True
    then have "extends (snd (readl hw MBOX_STATUS_OFFSET (msleep 1 st)))
      (wait_for_xaction_loop hw (Suc t) (snd (readl hw MBOX_STATUS_OFFSET (msleep 1 st))))"
      using IH by blast
    with step have "extends st
      (wait_for_xaction_loop hw (Suc t) (snd (readl hw MBOX_STATUS_OFFSET (msleep 1 st))))"
      by (rule extends_trans)
    then show ?thesis
      unfolding wait_loop_unfold [of hw t st] using True by simp
  next
    case False
    then show ?thesis
      unfolding wait_loop_unfold [of hw t st] using step by auto
  qed
qed

lemma extends_wait_for_xaction: "extends st (snd (wait_for_xaction hw st))"
proof -
  have "snd (wait_for_xaction hw st) =
          snd (readl hw MBOX_STATUS_OFFSET (wait_for_xaction_loop hw 0 st))"
    by (simp add: wait_for_xaction_def case_prod_beta)
  then show ?thesis
    by (simp add: extends_trans [OF extends_wait_loop extends_readl_status])
qed

lemma extends_read_xaction_response:
  "extends st (snd (snd (read_xaction_response hw st)))"
  by (rule extendsI [where evs = "concat (map (\<lambda>i. [Readl MBOX_RDDATA_OFFSET (rddata_reads hw (xact st) (rds st + i)),
                            Writel 0 MBOX_RDDATA_OFFSET]) [0..<4])"])
     (simp_all add: read_xaction_response_unfold upt_rec numeral_3_eq_3 numeral_2_eq_2)

lemma extends_get_chunksize: "extends st (snd (get_chunksize ts off st))"
  by (simp add: get_chunksize_def extends_WARN_ON_ONCE)

lemma writel_go_fields [simp]:
  "xact (writel MASK_MBOX_CTRL_GO MBOX_CONTROL_OFFSET st) = Suc (xact st)"
  "polls (writel MASK_MBOX_CTRL_GO MBOX_CONTROL_OFFSET st) = 0"
  "rds (writel MASK_MBOX_CTRL_GO MBOX_CONTROL_OFFSET st) = 0"
  "klog (writel MASK_MBOX_CTRL_GO MBOX_CONTROL_OFFSET st) = klog st"
  using GO_nonzero by (simp_all add: writel_def)

lemma request_xaction_fields [simp]:
  "xact (request_xaction chunk L st) = Suc (xact st)"
  "polls (request_xaction chunk L st) = 0"
  "rds (request_xaction chunk L st) = 0"
  "klog (request_xaction chunk L st) = klog st"
  by (simp_all add: request_xaction_def Let_def)

lemma read_xaction_response_fields [simp]:
  "fst (read_xaction_response hw st) =
     (if bit (rddata_reads hw (xact st) (rds st + 3)) 2 then UCODE_ERROR else UCODE_OK)"
  "fst (snd (read_xaction_response hw st)) = rddata_reads hw (xact st) (rds st + 2)"
  "xact (snd (snd (read_xaction_response hw st))) = xact st"
  "rds (snd (snd (read_xaction_response hw st))) = rds st + 4"
  "polls (snd (snd (read_xaction_response hw st))) = polls st"
  by (simp_all add: read_xaction_response_unfold)

lemma wait_result_indep:
  "xact st = k \<Longrightarrow> polls st = 0 \<Longrightarrow>
   fst (wait_for_xaction hw st) = fst (wait_for_xaction hw (fresh k))"
proof -
  assume a: "xact st = k" "polls st = 0"
  obtain r p evs where f: "\<forall>st. xact st = k \<and> polls st = 0 \<longrightarrow>
      wait_for_xaction hw st = (r, st\<lparr>polls := p, trace := trace st @ evs\<rparr>)"
    using wait_for_xaction_frame [of k 0 hw] by blast
  have "fst (wait_for_xaction hw st) = r" using f a by simp
  moreover have "fst (wait_for_xaction hw (fresh k)) = r" using f by (simp add: fresh_def)
  ultimately show ?thesis by simp
qed

lemma get_chunksize_simps [simp]:
  "fst (get_chunksize ts off st) = min MBOX_XACTION_LEN (ts - off)"
  "snd (get_chunksize ts off st) = WARN_ON_ONCE Warn_offset (ts < off) st"
  by (simp_all add: get_chunksize_def)

text \<open>One iteration of the loop body, with its intermediate windows named.\<close>

lemma staging_loop_Suc:
  "staging_loop (Suc n) hw mem ts v st =
     (if offset v = STAGING_OFFSET_END then (True, v, st)
      else
        let cs = min MBOX_XACTION_LEN (ts - offset v);
            st1 = WARN_ON_ONCE Warn_offset (ts < offset v) st
        in if MBOX_XACTION_MAX ts < xaction_bytes v + cs
           then (True, v\<lparr>state := Some UCODE_TIMEOUT\<rparr>, st1)
           else
             let w = wait_for_xaction hw (request_xaction (chunk_at mem (offset v)) cs st1)
             in if fst w \<noteq> UCODE_OK then (True, v\<lparr>state := Some (fst w)\<rparr>, snd w)
                else
                  let r = read_xaction_response hw (snd w);
                      v' = \<lparr>xaction_bytes = xaction_bytes v + cs, offset = fst (snd r),
                            state = Some (fst r)\<rparr>
                  in if fst r \<noteq> UCODE_OK then (True, v', snd (snd r))
                     else staging_loop n hw mem ts v' (snd (snd r)))"
  by (simp add: get_chunksize_def Let_def case_prod_beta)

declare staging_loop.simps(2) [simp del]

lemma extends_staging_loop: "extends st (snd (snd (staging_loop n hw mem ts v st)))"
proof (induction n arbitrary: v st)
  case 0
  show ?case by simp
next
  case (Suc n)
  define cs where "cs = min MBOX_XACTION_LEN (ts - offset v)"
  define st1 where "st1 = WARN_ON_ONCE Warn_offset (ts < offset v) st"
  define st2 where "st2 = request_xaction (chunk_at mem (offset v)) cs st1"
  define w where "w = wait_for_xaction hw st2"
  define r where "r = read_xaction_response hw (snd w)"
  have e1: "extends st st1" unfolding st1_def by (rule extends_WARN_ON_ONCE)
  have "extends st1 st2" unfolding st2_def by (rule extends_request_xaction)
  with e1 have e2: "extends st st2" by (rule extends_trans)
  have "extends st2 (snd w)" unfolding w_def by (rule extends_wait_for_xaction)
  with e2 have e3: "extends st (snd w)" by (rule extends_trans)
  have "extends (snd w) (snd (snd r))" unfolding r_def by (rule extends_read_xaction_response)
  with e3 have e4: "extends st (snd (snd r))" by (rule extends_trans)
  have e5: "extends st (snd (snd (staging_loop n hw mem ts u (snd (snd r)))))" for u
    by (rule extends_trans [OF e4 Suc.IH])
  show ?case
    unfolding staging_loop_Suc Let_def
    using e1 e3 e4 e5
    by (simp add: cs_def [symmetric] st1_def [symmetric] st2_def [symmetric] w_def [symmetric]
        r_def [symmetric] del: read_xaction_response_fields)
qed

lemma extends_xact_mono: "extends st st' \<Longrightarrow> xact st \<le> xact st'"
  using extendsD [of st st'] by simp

lemma ucode_state_not_ok: "s \<noteq> UCODE_OK \<Longrightarrow> s = UCODE_ERROR \<or> s = UCODE_TIMEOUT"
  by (cases s) simp_all

text \<open>
  How the loop can be left: at once (the offset already is the end marker), with
  \<open>UCODE_OK\<close> after a response that stored the end marker, or by a \<^verbatim>\<open>break\<close> with
  \<open>UCODE_ERROR\<close> or \<open>UCODE_TIMEOUT\<close>.
\<close>

lemma staging_loop_exit:
  "staging_loop n hw mem ts v st = (True, v', st') \<Longrightarrow>
     (v' = v \<and> st' = st \<and> offset v = STAGING_OFFSET_END) \<or>
     (state v' = Some UCODE_OK \<and> offset v' = STAGING_OFFSET_END \<and> xact st < xact st' \<and>
      offset v' = rddata_reads hw (xact st') 2) \<or>
     state v' = Some UCODE_ERROR \<or> state v' = Some UCODE_TIMEOUT"
proof (induction n arbitrary: v st)
  case 0
  then show ?case by auto
next
  case (Suc n)
  define cs where "cs = min MBOX_XACTION_LEN (ts - offset v)"
  define st1 where "st1 = WARN_ON_ONCE Warn_offset (ts < offset v) st"
  define w where "w = wait_for_xaction hw (request_xaction (chunk_at mem (offset v)) cs st1)"
  define r where "r = read_xaction_response hw (snd w)"
  define v2 where "v2 = \<lparr>xaction_bytes = xaction_bytes v + cs, offset = fst (snd r),
                            state = Some (fst r)\<rparr>"
  have xw: "xact (snd w) = Suc (xact st)" and rw: "rds (snd w) = 0"
    by (simp_all add: w_def st1_def)
  have xr: "xact (snd (snd r)) = Suc (xact st)"
    and off2: "offset v2 = rddata_reads hw (Suc (xact st)) 2"
    by (simp_all add: r_def v2_def xw rw numeral_2_eq_2)
  note step = Suc.prems [unfolded staging_loop_Suc Let_def, folded cs_def st1_def,
      folded w_def, folded r_def, folded v2_def]
  consider (atend) "offset v = STAGING_OFFSET_END"
    | (budget) "offset v \<noteq> STAGING_OFFSET_END" "MBOX_XACTION_MAX ts < xaction_bytes v + cs"
    | (wait) "offset v \<noteq> STAGING_OFFSET_END" "\<not> MBOX_XACTION_MAX ts < xaction_bytes v + cs"
        "fst w \<noteq> UCODE_OK"
    | (resp) "offset v \<noteq> STAGING_OFFSET_END" "\<not> MBOX_XACTION_MAX ts < xaction_bytes v + cs"
        "fst w = UCODE_OK" "fst r \<noteq> UCODE_OK"
    | (cont) "offset v \<noteq> STAGING_OFFSET_END" "\<not> MBOX_XACTION_MAX ts < xaction_bytes v + cs"
        "fst w = UCODE_OK" "fst r = UCODE_OK"
    by blast
  then show ?case
  proof cases
    case atend
    with step show ?thesis by auto
  next
    case budget
    with step show ?thesis by auto
  next
    case wait
    with step have "v' = v\<lparr>state := Some (fst w)\<rparr>" by simp
    with ucode_state_not_ok [OF wait(3)] show ?thesis by auto
  next
    case resp
    with step have "v' = v2" by simp
    with ucode_state_not_ok [OF resp(4)] show ?thesis by (auto simp: v2_def)
  next
    case cont
    with step have "staging_loop n hw mem ts v2 (snd (snd r)) = (True, v', st')" by simp
    from Suc.IH [OF this] cont(4) xr off2 show ?thesis
      by (auto simp: v2_def)
  qed
qed

text \<open>
  As long as the loop has not broken out with an error or a timeout, every transaction it
  has started was classified OK, by the wait and by the decoder.
\<close>

lemma staging_loop_all_ok:
  "staging_loop n hw mem ts v st = (fin, v', st') \<Longrightarrow>
   state v' \<noteq> Some UCODE_ERROR \<Longrightarrow> state v' \<noteq> Some UCODE_TIMEOUT \<Longrightarrow>
   list_all (xaction_ok hw) [Suc (xact st)..<Suc (xact st')]"
proof (induction n arbitrary: v st)
  case 0
  then show ?case by auto
next
  case (Suc n)
  define cs where "cs = min MBOX_XACTION_LEN (ts - offset v)"
  define st1 where "st1 = WARN_ON_ONCE Warn_offset (ts < offset v) st"
  define st2 where "st2 = request_xaction (chunk_at mem (offset v)) cs st1"
  define w where "w = wait_for_xaction hw st2"
  define r where "r = read_xaction_response hw (snd w)"
  define v2 where "v2 = \<lparr>xaction_bytes = xaction_bytes v + cs, offset = fst (snd r),
                            state = Some (fst r)\<rparr>"
  have x2: "xact st2 = Suc (xact st)" and p2: "polls st2 = 0"
    by (simp_all add: st2_def st1_def)
  have xw: "xact (snd w) = Suc (xact st)" and rw: "rds (snd w) = 0"
    by (simp_all add: w_def st2_def st1_def)
  have xr: "xact (snd (snd r)) = Suc (xact st)"
    by (simp add: r_def xw)
  note step = Suc.prems(1) [unfolded staging_loop_Suc Let_def, folded cs_def st1_def,
      folded st2_def, folded w_def, folded r_def, folded v2_def]
  consider (atend) "offset v = STAGING_OFFSET_END"
    | (budget) "offset v \<noteq> STAGING_OFFSET_END" "MBOX_XACTION_MAX ts < xaction_bytes v + cs"
    | (wait) "offset v \<noteq> STAGING_OFFSET_END" "\<not> MBOX_XACTION_MAX ts < xaction_bytes v + cs"
        "fst w \<noteq> UCODE_OK"
    | (resp) "offset v \<noteq> STAGING_OFFSET_END" "\<not> MBOX_XACTION_MAX ts < xaction_bytes v + cs"
        "fst w = UCODE_OK" "fst r \<noteq> UCODE_OK"
    | (cont) "offset v \<noteq> STAGING_OFFSET_END" "\<not> MBOX_XACTION_MAX ts < xaction_bytes v + cs"
        "fst w = UCODE_OK" "fst r = UCODE_OK"
    by blast
  then show ?case
  proof cases
    case atend
    with step show ?thesis by auto
  next
    case budget
    with step Suc.prems(3) show ?thesis by auto
  next
    case wait
    with step have "v' = v\<lparr>state := Some (fst w)\<rparr>" by simp
    with ucode_state_not_ok [OF wait(3)] Suc.prems(2,3) show ?thesis by auto
  next
    case resp
    with step have "v' = v2" by simp
    with ucode_state_not_ok [OF resp(4)] Suc.prems(2,3) show ?thesis by (auto simp: v2_def)
  next
    case cont
    with step have run: "staging_loop n hw mem ts v2 (snd (snd r)) = (fin, v', st')" by simp
    from Suc.IH [OF this Suc.prems(2,3)]
    have rest: "list_all (xaction_ok hw) [Suc (Suc (xact st))..<Suc (xact st')]"
      by (simp add: xr)
    have "st' = snd (snd (staging_loop n hw mem ts v2 (snd (snd r))))" by (simp add: run)
    then have "extends (snd (snd r)) st'" by (simp add: extends_staging_loop)
    from extends_xact_mono [OF this] have le: "Suc (xact st) \<le> xact st'" by (simp add: xr)
    have "fst (wait_for_xaction hw (fresh (Suc (xact st)))) = UCODE_OK"
      using wait_result_indep [OF x2 p2, of hw] cont(3) by (simp add: w_def)
    moreover have "fst (read_xaction_response hw (fresh (Suc (xact st)))) = UCODE_OK"
      using cont(4) by (simp add: r_def xw rw fresh_def numeral_3_eq_3)
    ultimately have ok: "xaction_ok hw (Suc (xact st))" by (simp add: xaction_ok_def)
    have "[Suc (xact st)..<Suc (xact st')] = Suc (xact st) # [Suc (Suc (xact st))..<Suc (xact st')]"
      using le by (simp add: upt_conv_Cons)
    with ok rest show ?thesis by simp
  qed
qed

lemma abort_xaction_fields [simp]:
  "xact (abort_xaction st) = xact st"
  "klog (abort_xaction st) = klog st"
  "trace (abort_xaction st) = trace st @ [Writel MASK_MBOX_CTRL_ABORT MBOX_CONTROL_OFFSET]"
  by (simp_all add: abort_xaction_def writel_def MASK_MBOX_CTRL_ABORT_def BIT_def
      del: mask_bit_iff) (simp_all add: MASK_MBOX_CTRL_GO_def BIT_def)

lemma extends_abort_xaction: "extends st (abort_xaction st)"
  unfolding abort_xaction_def by (rule extends_writel)

lemma extends_trace_event:
  "\<not> is_go e \<Longrightarrow> rd_acked [e] \<Longrightarrow> extends st (st\<lparr>trace := trace st @ [e]\<rparr>)"
  by (rule extendsI [where evs = "[e]"]) simp_all

lemma extends_pr_err: "extends st (pr_err msg st)"
  by (rule extendsI [where evs = "[]"]) (simp_all add: pr_err_def)

lemma reg_window_size [simp]: "MBOX_REG_NUM * MBOX_REG_SIZE = 16"
  by (simp add: MBOX_REG_NUM_def MBOX_REG_SIZE_def)

lemma staging_work_unfold:
  "staging_work n hw pa mem ts st =
     (if \<not> ioremap_ok hw pa 16
      then (Some False,
            WARN_ON_ONCE Warn_ioremap True (st\<lparr>trace := trace st @ [Ioremap pa 16 False]\<rparr>))
      else
        (let l = staging_loop n hw mem ts \<lparr>xaction_bytes = 0, offset = 0, state = None\<rparr>
                   (abort_xaction (st\<lparr>trace := trace st @ [Ioremap pa 16 True]\<rparr>));
             st2 = (snd (snd l))\<lparr>trace := trace (snd (snd l)) @ [Iounmap]\<rparr>
         in if \<not> fst l then (None, snd (snd l))
            else if state (fst (snd l)) = Some UCODE_OK then (Some True, st2)
            else (Some False,
                  pr_err (''Staging failed with '' @
                          (if state (fst (snd l)) = Some UCODE_TIMEOUT then ''timeout''
                           else ''error'') @ ''.'') st2)))"
  by (auto simp: staging_work_def Let_def split: prod.splits bool.splits)

lemma extends_staging_work: "extends st (snd (staging_work n hw pa mem ts st))"
proof -
  define st0 where "st0 = st\<lparr>trace := trace st @ [Ioremap pa 16 (ioremap_ok hw pa 16)]\<rparr>"
  define l where "l = staging_loop n hw mem ts \<lparr>xaction_bytes = 0, offset = 0, state = None\<rparr>
                   (abort_xaction st0)"
  define st2 where "st2 = (snd (snd l))\<lparr>trace := trace (snd (snd l)) @ [Iounmap]\<rparr>"
  have e0: "extends st st0"
    unfolding st0_def by (rule extends_trace_event) simp_all
  have "extends st0 (WARN_ON_ONCE Warn_ioremap True st0)" by (rule extends_WARN_ON_ONCE)
  with e0 have ew: "extends st (WARN_ON_ONCE Warn_ioremap True st0)" by (rule extends_trans)
  have "extends st0 (abort_xaction st0)" by (rule extends_abort_xaction)
  with e0 have "extends st (abort_xaction st0)" by (rule extends_trans)
  moreover have "extends (abort_xaction st0) (snd (snd l))"
    unfolding l_def by (rule extends_staging_loop)
  ultimately have e1: "extends st (snd (snd l))" by (rule extends_trans)
  have "extends (snd (snd l)) st2"
    unfolding st2_def by (rule extends_trace_event) simp_all
  with e1 have e2: "extends st st2" by (rule extends_trans)
  have e3: "extends st (pr_err msg st2)" for msg
    by (rule extends_trans [OF e2 extends_pr_err])
  show ?thesis
  proof (cases "ioremap_ok hw pa 16")
    case True
    then show ?thesis
      unfolding staging_work_unfold Let_def
      using e1 e2 e3 by (simp add: st0_def l_def st2_def)
  next
    case False
    then show ?thesis
      unfolding staging_work_unfold using ew by (simp add: st0_def)
  qed
qed

text \<open>
  Claim C9. In every run of the transfer, whatever the device answers and however long the
  run is followed, every read of the read-data register (offset \<open>0xc\<close>) among the events
  of the run is followed at once by a write of zero to that register.
\<close>

theorem staging_work_reads_acked:
  "rd_acked (emitted st (snd (staging_work n hw mmio_pa mem totalsize st))) \<and>
   MBOX_RDDATA_OFFSET = 0xc"
  using extends_staging_work [of st n hw mmio_pa mem totalsize]
  by (simp add: extends_def MBOX_RDDATA_OFFSET_def)

lemma pr_err_fields [simp]:
  "xact (pr_err msg st) = xact st"
  "trace (pr_err msg st) = trace st"
  "klog (pr_err msg st) = klog st @ [Pr_err msg]"
  by (simp_all add: pr_err_def)

lemma END_nonzero [simp]: "0 \<noteq> STAGING_OFFSET_END" "STAGING_OFFSET_END \<noteq> 0"
  by (simp_all add: STAGING_OFFSET_END_def)

text \<open>
  With the placeholders the first iteration always leaves the loop, and never with
  \<open>UCODE_OK\<close>.
\<close>

lemma staging_loop_stub_first:
  "fst (staging_loop_stub (Suc n) hw mem ts \<lparr>xaction_bytes = 0, offset = 0, state = None\<rparr> st) \<and>
   state (fst (snd (staging_loop_stub (Suc n) hw mem ts
       \<lparr>xaction_bytes = 0, offset = 0, state = None\<rparr> st))) \<noteq> Some UCODE_OK"
  by (simp add: read_xaction_response_stub_def case_prod_beta)

declare staging_loop_stub.simps(2) [simp del]

text \<open>
  Claim C1. When the mapping fails, \<open>staging_work\<close> returns false and the only event of the
  run is the failed \<open>ioremap\<close>: no register is read or written. Otherwise it returns true
  exactly when the loop is left with \<open>UCODE_OK\<close> and the end marker \<open>0xFFFFFFFF\<close> as
  offset (DONE), and then every transaction of the run was classified OK and the last
  response stored the end marker; it returns false exactly when the loop is left with
  \<open>UCODE_ERROR\<close> or \<open>UCODE_TIMEOUT\<close> (FAILED); it has no result exactly while the loop has
  not been left. With the placeholders of \<^verbatim>\<open>intel_staging.c\<close> the same function never
  returns true: it returns false once the loop body has run, and false without any register
  access when the mapping fails.
\<close>

theorem staging_work_result:
  "(case staging_work n hw mmio_pa mem totalsize st of
      (r, st') \<Rightarrow>
        if ioremap_ok hw mmio_pa 16 then
          (case staging_loop n hw mem totalsize \<lparr>xaction_bytes = 0, offset = 0, state = None\<rparr>
                  (abort_xaction (st\<lparr>trace := trace st @ [Ioremap mmio_pa 16 True]\<rparr>)) of
             (left, v, st1) \<Rightarrow>
               (r = Some True) =
                 (left \<and> state v = Some UCODE_OK \<and> offset v = STAGING_OFFSET_END) \<and>
               (r = Some False) =
                 (left \<and> (state v = Some UCODE_ERROR \<or> state v = Some UCODE_TIMEOUT)) \<and>
               (r = None) = (\<not> left) \<and>
               (if r = Some True
                then list_all (xaction_ok hw) [Suc (xact st)..<Suc (xact st')] \<and>
                     xact st < xact st' \<and>
                     rddata_reads hw (xact st') 2 = STAGING_OFFSET_END
                else True))
        else r = Some False \<and> emitted st st' = [Ioremap mmio_pa 16 False]) \<and>
   STAGING_OFFSET_END = 0xFFFFFFFF \<and>
   (case staging_work_stub n hw mmio_pa mem totalsize st of
      (r, st') \<Rightarrow>
        if ioremap_ok hw mmio_pa 16 then r = (if n = 0 then None else Some False)
        else r = Some False \<and> emitted st st' = [Ioremap mmio_pa 16 False])"
proof -
  define st0 where "st0 = abort_xaction (st\<lparr>trace := trace st @ [Ioremap mmio_pa 16 True]\<rparr>)"
  define v0 where "v0 = \<lparr>xaction_bytes = 0, offset = 0, state = None\<rparr>"
  have stub: "(case staging_work_stub n hw mmio_pa mem totalsize st of
      (r, st') \<Rightarrow>
        if ioremap_ok hw mmio_pa 16 then r = (if n = 0 then None else Some False)
        else r = Some False \<and> emitted st st' = [Ioremap mmio_pa 16 False])"
  proof (cases "ioremap_ok hw mmio_pa 16")
    case False
    then show ?thesis by (simp add: staging_work_stub_def Let_def emitted_def)
  next
    case True
    show ?thesis
    proof (cases n)
      case 0
      with True show ?thesis by (simp add: staging_work_stub_def Let_def)
    next
      case (Suc m)
      obtain left v st1 where
        l: "staging_loop_stub (Suc m) hw mem totalsize v0 st0 = (left, v, st1)"
        by (cases "staging_loop_stub (Suc m) hw mem totalsize v0 st0") blast
      have "left \<and> state v \<noteq> Some UCODE_OK"
        using staging_loop_stub_first [of m hw mem totalsize st0]
        unfolding v0_def [symmetric] l by simp
      with True Suc l [unfolded st0_def v0_def] show ?thesis
        by (simp add: staging_work_stub_def Let_def)
    qed
  qed
  obtain left v st1 where l: "staging_loop n hw mem totalsize v0 st0 = (left, v, st1)"
    by (cases "staging_loop n hw mem totalsize v0 st0") blast
  have x0: "xact st0 = xact st" by (simp add: st0_def)
  have exit: "state v = Some UCODE_OK \<and> offset v = STAGING_OFFSET_END \<and> xact st < xact st1 \<and>
      offset v = rddata_reads hw (xact st1) 2 \<or>
      state v = Some UCODE_ERROR \<or> state v = Some UCODE_TIMEOUT" if left
    using staging_loop_exit [of n hw mem totalsize v0 st0 v st1] l that x0
    by (auto simp: v0_def)
  have allok: "list_all (xaction_ok hw) [Suc (xact st)..<Suc (xact st1)]"
    if "state v = Some UCODE_OK"
    using staging_loop_all_ok [OF l] that x0 by simp
  have main: "(case staging_work n hw mmio_pa mem totalsize st of
      (r, st') \<Rightarrow>
        if ioremap_ok hw mmio_pa 16 then
          (case staging_loop n hw mem totalsize \<lparr>xaction_bytes = 0, offset = 0, state = None\<rparr>
                  (abort_xaction (st\<lparr>trace := trace st @ [Ioremap mmio_pa 16 True]\<rparr>)) of
             (left, v, st1) \<Rightarrow>
               (r = Some True) =
                 (left \<and> state v = Some UCODE_OK \<and> offset v = STAGING_OFFSET_END) \<and>
               (r = Some False) =
                 (left \<and> (state v = Some UCODE_ERROR \<or> state v = Some UCODE_TIMEOUT)) \<and>
               (r = None) = (\<not> left) \<and>
               (if r = Some True
                then list_all (xaction_ok hw) [Suc (xact st)..<Suc (xact st')] \<and>
                     xact st < xact st' \<and>
                     rddata_reads hw (xact st') 2 = STAGING_OFFSET_END
                else True))
        else r = Some False \<and> emitted st st' = [Ioremap mmio_pa 16 False])"
  proof (cases "ioremap_ok hw mmio_pa 16")
    case True
    show ?thesis
    proof (cases left)
      case True
      with exit have "state v = Some UCODE_OK \<and> offset v = STAGING_OFFSET_END \<and>
          xact st < xact st1 \<and> offset v = rddata_reads hw (xact st1) 2 \<or>
          state v = Some UCODE_ERROR \<or> state v = Some UCODE_TIMEOUT" by blast
      then show ?thesis
        using \<open>ioremap_ok hw mmio_pa 16\<close> True l allok
        unfolding staging_work_unfold Let_def st0_def [symmetric] v0_def [symmetric]
        by auto
    next
      case False
      then show ?thesis
        using \<open>ioremap_ok hw mmio_pa 16\<close> l
        unfolding staging_work_unfold Let_def st0_def [symmetric] v0_def [symmetric]
        by simp
    qed
  next
    case False
    then show ?thesis
      unfolding staging_work_unfold
      by (simp add: emitted_def)
  qed
  have "STAGING_OFFSET_END = 0xFFFFFFFF" by (simp add: STAGING_OFFSET_END_def)
  with main stub show ?thesis by (intro conjI)
qed

text \<open>The theorem at a device whose mapping fails: false, and the failed \<^verbatim>\<open>ioremap\<close> as only event.\<close>

theorem staging_work_result_witness:
  "fst (staging_work 5 hw_unmapped 0 mem0 4096 (fresh 0)) = Some False \<and>
   trace (snd (staging_work 5 hw_unmapped 0 mem0 4096 (fresh 0))) = [Ioremap 0 16 False] \<and>
   fst (staging_work_stub 5 hw_unmapped 0 mem0 4096 (fresh 0)) = Some False \<and>
   trace (snd (staging_work_stub 5 hw_unmapped 0 mem0 4096 (fresh 0))) = [Ioremap 0 16 False]"
proof -
  have m: "\<not> ioremap_ok hw_unmapped 0 16"
    by (simp add: hw_unmapped_def hw_reply_def)
  have t: "trace (fresh 0) = []" by (simp add: fresh_def)
  show ?thesis
    using staging_work_result [where n = 5 and hw = hw_unmapped and mmio_pa = 0 and mem = mem0
        and totalsize = 4096 and st = "fresh 0"] m
    by (simp add: case_prod_beta emitted_def t)
qed

lemma MBOX_XACTION_TIMEOUT_value: "MBOX_XACTION_TIMEOUT = 10000"
  by (simp add: MBOX_XACTION_TIMEOUT_def MSEC_PER_SEC_def)

text \<open>
  A wait whose polls never see the ready bit: \<open>MBOX_XACTION_TIMEOUT\<close> polls, then the read
  that classifies.
\<close>

lemma wait_for_xaction_exhausted:
  assumes "\<And>i. i < MBOX_XACTION_TIMEOUT \<Longrightarrow> \<not> bit (status_reads hw (xact st) (polls st + i)) 31"
  shows "wait_for_xaction hw st =
     (let status = status_reads hw (xact st) (polls st + MBOX_XACTION_TIMEOUT)
      in (if bit status 2 then UCODE_ERROR
          else if bit status 31 then UCODE_OK else UCODE_TIMEOUT,
          st\<lparr>polls := Suc (polls st + MBOX_XACTION_TIMEOUT),
             trace := trace st @
               concat (map (\<lambda>i. [Msleep 1,
                                 Readl MBOX_STATUS_OFFSET (status_reads hw (xact st) (polls st + i))])
                           [0..<MBOX_XACTION_TIMEOUT]) @
               [Readl MBOX_STATUS_OFFSET status]\<rparr>))"
proof -
  have "wait_for_xaction_loop hw 0 st =
     st\<lparr>polls := polls st + MBOX_XACTION_TIMEOUT,
        trace := trace st @
          concat (map (\<lambda>i. [Msleep 1,
                            Readl MBOX_STATUS_OFFSET (status_reads hw (xact st) (polls st + i))])
                      [0..<MBOX_XACTION_TIMEOUT])\<rparr>"
    using wait_loop_exhausted [of 0 hw st] assms by simp
  then show ?thesis
    by (simp add: wait_for_xaction_unfold Let_def)
qed

lemma emitted_append: "trace st' = trace st @ evs \<Longrightarrow> emitted st st' = evs"
  by (simp add: emitted_def)

lemma state_update_simps [simp]:
  "state (v\<lparr>state := s\<rparr>) = s"
  by simp

text \<open>
  Claim C5, amended. If the ready bit is clear in all \<open>10000\<close> polls of a transaction and
  still clear in the status read that follows the poll loop, and the error bit is clear in
  that read, then the wait takes ten thousand one-millisecond sleeps, each followed by one
  status read, reads the status once more and classifies the transaction as
  \<open>UCODE_TIMEOUT\<close>; the loop is left with \<open>UCODE_TIMEOUT\<close>, and \<open>staging_work\<close> returns
  false and logs the timeout.
\<close>

theorem wait_timeout_fails_transfer:
  assumes never_ready:
      "\<forall>i \<le> MBOX_XACTION_TIMEOUT. \<not> bit (status_reads hw (Suc (xact st)) i) 31"
    and no_error: "\<not> bit (status_reads hw (Suc (xact st)) MBOX_XACTION_TIMEOUT) 2"
    and running: "offset v \<noteq> STAGING_OFFSET_END"
    and mapped: "ioremap_ok hw mmio_pa 16"
  shows "MBOX_XACTION_TIMEOUT = 10000 \<and>
     fst (wait_for_xaction hw (request_xaction chunk L st)) = UCODE_TIMEOUT \<and>
     emitted (request_xaction chunk L st) (snd (wait_for_xaction hw (request_xaction chunk L st))) =
       concat (map (\<lambda>i. [Msleep 1,
                         Readl MBOX_STATUS_OFFSET (status_reads hw (Suc (xact st)) i)])
                   [0..<10000]) @
       [Readl MBOX_STATUS_OFFSET (status_reads hw (Suc (xact st)) 10000)] \<and>
     (case staging_loop (Suc n) hw mem totalsize v st of
        (left, v', st') \<Rightarrow> left \<and> state v' = Some UCODE_TIMEOUT) \<and>
     (case staging_work (Suc n) hw mmio_pa mem totalsize st of
        (r, st') \<Rightarrow> r = Some False \<and> last (klog st') = Pr_err ''Staging failed with timeout.'')"
proof -
  have w: "wait_for_xaction hw s =
     (UCODE_TIMEOUT,
      s\<lparr>polls := Suc MBOX_XACTION_TIMEOUT,
         trace := trace s @
           concat (map (\<lambda>i. [Msleep 1,
                             Readl MBOX_STATUS_OFFSET (status_reads hw (Suc (xact st)) i)])
                       [0..<MBOX_XACTION_TIMEOUT]) @
           [Readl MBOX_STATUS_OFFSET (status_reads hw (Suc (xact st)) MBOX_XACTION_TIMEOUT)]\<rparr>)"
    if "xact s = Suc (xact st)" "polls s = 0" for s
    using wait_for_xaction_exhausted [of hw s] never_ready no_error that
    by (simp add: Let_def)
  have w1: "fst (wait_for_xaction hw (request_xaction c l s)) = UCODE_TIMEOUT"
    if "xact s = xact st" for c l s
    using w [of "request_xaction c l s"] that by simp
  have loop: "fst (staging_loop (Suc n) hw mem totalsize u s) \<and>
      state (fst (snd (staging_loop (Suc n) hw mem totalsize u s))) = Some UCODE_TIMEOUT"
    if "xact s = xact st" "offset u \<noteq> STAGING_OFFSET_END" for u s
    unfolding staging_loop_Suc Let_def
    using that by (simp add: w1)
  have "fst (staging_work (Suc n) hw mmio_pa mem totalsize st) = Some False \<and>
     last (klog (snd (staging_work (Suc n) hw mmio_pa mem totalsize st))) =
       Pr_err ''Staging failed with timeout.''"
    unfolding staging_work_unfold Let_def
    using mapped
      loop [of "abort_xaction (st\<lparr>trace := trace st @ [Ioremap mmio_pa 16 True]\<rparr>)"
               "\<lparr>xaction_bytes = 0, offset = 0, state = None\<rparr>"]
    by simp
  then show ?thesis
    using w [of "request_xaction chunk L st"] loop [of st v] running MBOX_XACTION_TIMEOUT_value
    by (simp add: case_prod_beta emitted_def)
qed

text \<open>
  The theorem at a device that never sets a status bit: \<open>20001\<close> events of the wait (ten
  thousand sleeps and \<open>10001\<close> status reads), and a transfer that fails with a timeout.
\<close>

theorem wait_timeout_fails_transfer_witness:
  "fst (wait_for_xaction hw_silent (request_xaction (chunk_at mem0 0) 4096 (fresh 0))) =
     UCODE_TIMEOUT \<and>
   length (emitted (request_xaction (chunk_at mem0 0) 4096 (fresh 0))
            (snd (wait_for_xaction hw_silent (request_xaction (chunk_at mem0 0) 4096 (fresh 0)))))
     = 20001 \<and>
   fst (staging_work (Suc 0) hw_silent 0 mem0 4096 (fresh 0)) = Some False \<and>
   last (klog (snd (staging_work (Suc 0) hw_silent 0 mem0 4096 (fresh 0)))) =
     Pr_err ''Staging failed with timeout.''"
proof -
  have "length (concat (map (\<lambda>i. [Msleep 1, Readl MBOX_STATUS_OFFSET (0::u32)]) [0..<10000])) = 20000"
    by (simp add: length_concat comp_def sum_list_triv)
  then show ?thesis
    using wait_timeout_fails_transfer [where hw = hw_silent and st = "fresh 0"
        and v = "\<lparr>xaction_bytes = 0, offset = 0, state = None\<rparr>" and mmio_pa = 0
        and chunk = "chunk_at mem0 0" and L = 4096 and n = 0 and mem = mem0
        and totalsize = 4096]
    by (simp add: hw_silent_def hw_reply_def fresh_def case_prod_beta)
qed

text \<open>
  Without the condition on the read after the loop the property fails: a device that leaves
  the ready bit clear during all \<open>10000\<close> polls and sets it in the next status read is
  classified \<open>UCODE_OK\<close>, and the transfer succeeds.
\<close>

lemma late_ready_wait:
  "wait_for_xaction hw_late_ready st =
     (UCODE_OK,
      st\<lparr>polls := Suc (polls st + MBOX_XACTION_TIMEOUT),
         trace := trace st @
           concat (map (\<lambda>i. [Msleep 1,
                             Readl MBOX_STATUS_OFFSET (status_reads hw_late_ready (xact st) (polls st + i))])
                       [0..<MBOX_XACTION_TIMEOUT]) @
           [Readl MBOX_STATUS_OFFSET 0x80000000]\<rparr>)"
  if "polls st = 0"
  using wait_for_xaction_exhausted [of hw_late_ready st] that
  by (simp add: hw_late_ready_def hw_reply_def Let_def MBOX_XACTION_TIMEOUT_value)

theorem late_ready_counterexample:
  "list_all (\<lambda>i. \<not> bit (status_reads hw_late_ready 1 i) 31) [0..<10000] \<and>
   polls (wait_for_xaction_loop hw_late_ready 0
            (request_xaction (chunk_at mem0 0) 4096 (fresh 0))) = 10000 \<and>
   fst (wait_for_xaction hw_late_ready (request_xaction (chunk_at mem0 0) 4096 (fresh 0))) =
     UCODE_OK \<and>
   fst (staging_work (Suc 0) hw_late_ready 0 mem0 4096 (fresh 0)) = Some True"
proof -
  have a: "list_all (\<lambda>i. \<not> bit (status_reads hw_late_ready 1 i) 31) [0..<10000]"
    by (simp add: list_all_iff hw_late_ready_def hw_reply_def)
  have "wait_for_xaction_loop hw_late_ready 0 (request_xaction (chunk_at mem0 0) 4096 (fresh 0)) =
      (request_xaction (chunk_at mem0 0) 4096 (fresh 0))\<lparr>polls := 0 + (MBOX_XACTION_TIMEOUT - 0),
        trace := trace (request_xaction (chunk_at mem0 0) 4096 (fresh 0)) @
          concat (map (\<lambda>i. [Msleep 1,
                            Readl MBOX_STATUS_OFFSET (status_reads hw_late_ready 1 (0 + i))])
                      [0..<MBOX_XACTION_TIMEOUT - 0])\<rparr>"
    using wait_loop_exhausted [of 0 hw_late_ready "request_xaction (chunk_at mem0 0) 4096 (fresh 0)"]
    by (simp add: hw_late_ready_def hw_reply_def fresh_def MBOX_XACTION_TIMEOUT_value)
  then have b: "polls (wait_for_xaction_loop hw_late_ready 0
            (request_xaction (chunk_at mem0 0) 4096 (fresh 0))) = 10000"
    by (simp add: MBOX_XACTION_TIMEOUT_value)
  have c: "fst (wait_for_xaction hw_late_ready (request_xaction (chunk_at mem0 0) 4096 (fresh 0))) =
     UCODE_OK"
    by (simp add: late_ready_wait)
  have d: "fst (staging_work (Suc 0) hw_late_ready 0 mem0 4096 (fresh 0)) = Some True"
    unfolding staging_work_unfold staging_loop_Suc Let_def
    by (simp add: late_ready_wait MBOX_XACTION_LEN_def PAGE_SIZE_def MBOX_XACTION_MAX_def)
       (simp add: hw_late_ready_def hw_reply_def STAGING_OFFSET_END_def)
  from a b c d show ?thesis by blast
qed

text \<open>Once a request has been sent, the rest of the run only adds to its events.\<close>

lemma staging_loop_Suc_sent:
  assumes "offset v \<noteq> STAGING_OFFSET_END"
    and "\<not> MBOX_XACTION_MAX ts < xaction_bytes v + min MBOX_XACTION_LEN (ts - offset v)"
  shows "extends
     (request_xaction (chunk_at mem (offset v)) (min MBOX_XACTION_LEN (ts - offset v))
        (WARN_ON_ONCE Warn_offset (ts < offset v) st))
     (snd (snd (staging_loop (Suc n) hw mem ts v st)))"
proof -
  define st2 where "st2 = request_xaction (chunk_at mem (offset v))
      (min MBOX_XACTION_LEN (ts - offset v)) (WARN_ON_ONCE Warn_offset (ts < offset v) st)"
  define w where "w = wait_for_xaction hw st2"
  define r where "r = read_xaction_response hw (snd w)"
  have e3: "extends st2 (snd w)" unfolding w_def by (rule extends_wait_for_xaction)
  have "extends (snd w) (snd (snd r))" unfolding r_def by (rule extends_read_xaction_response)
  with e3 have e4: "extends st2 (snd (snd r))" by (rule extends_trans)
  have e5: "extends st2 (snd (snd (staging_loop n hw mem ts u (snd (snd r)))))" for u
    by (rule extends_trans [OF e4 extends_staging_loop])
  show ?thesis
    unfolding staging_loop_Suc Let_def
    using assms e3 e4 e5
    by (simp add: st2_def [symmetric] w_def [symmetric] r_def [symmetric]
        del: read_xaction_response_fields)
qed

lemma unat_u32_bound: "unat a < 2 ^ 32" for a :: u32
proof -
  have "unat a < 2 ^ LENGTH(32)" by (rule unsigned_less)
  then show ?thesis by simp
qed

lemma unat_sub_wrap:
  "a < b \<Longrightarrow> unat (a - b) = 2 ^ 32 - (unat b - unat a)" for a b :: u32
  using unat_u32_bound [of b]
  by (simp add: unat_sub_if_size word_size word_less_nat_alt)

lemma WARN_ON_ONCE_klog:
  "klog (WARN_ON_ONCE site c st) =
     (if c \<and> Warn site \<notin> set (klog st) then klog st @ [Warn site] else klog st)"
  by (simp add: WARN_ON_ONCE_def)

text \<open>
  Claim C10, amended. When the offset is beyond \<open>totalsize\<close>, the 32-bit subtraction wraps
  to \<open>2^32 - (offset - totalsize)\<close> and the chunk size is the smaller of one page and
  that value: never zero, and the full page exactly when \<open>offset - totalsize\<close> is at most
  \<open>2^32 - 4096\<close>. The warning is logged unless it was logged before. If the byte budget
  does not admit the chunk, the loop is left with \<open>UCODE_TIMEOUT\<close> and nothing is sent;
  otherwise the next request frames the dwords found at \<^verbatim>\<open>ucode_ptr + offset\<close> onwards,
  beyond the end of the payload.
\<close>

theorem get_chunksize_past_end:
  assumes past: "totalsize < offset v"
    and running: "offset v \<noteq> STAGING_OFFSET_END"
  shows "(case get_chunksize totalsize (offset v) st of
      (cs, st1) \<Rightarrow>
        unat (totalsize - offset v) = 2 ^ 32 - (unat (offset v) - unat totalsize) \<and>
        unat cs = min 4096 (2 ^ 32 - (unat (offset v) - unat totalsize)) \<and>
        cs \<noteq> 0 \<and>
        (cs = MBOX_XACTION_LEN) = (unat (offset v) - unat totalsize \<le> 2 ^ 32 - 4096) \<and>
        trace st1 = trace st \<and>
        klog st1 = (if Warn Warn_offset \<in> set (klog st) then klog st
                    else klog st @ [Warn Warn_offset]) \<and>
        (case staging_loop (Suc n) hw mem totalsize v st of
           (left, v', st') \<Rightarrow>
             if MBOX_XACTION_MAX totalsize < xaction_bytes v + cs
             then left \<and> state v' = Some UCODE_TIMEOUT \<and> emitted st st' = []
             else (\<exists>rest. emitted st st' =
                     [Writel MBOX_HDR MBOX_WRDATA_OFFSET,
                      Writel (cs div 4 + 4) MBOX_WRDATA_OFFSET,
                      Writel 0x3 MBOX_WRDATA_OFFSET,
                      Writel 0 MBOX_WRDATA_OFFSET] @
                     map (\<lambda>j. Writel (load_u32 mem (unat (offset v) + 4 * j)) MBOX_WRDATA_OFFSET)
                         [0..<unat cs div 4] @
                     [Writel (push_bit 31 1) MBOX_CONTROL_OFFSET] @ rest)))"
proof -
  define cs where "cs = min MBOX_XACTION_LEN (totalsize - offset v)"
  define st1 where "st1 = WARN_ON_ONCE Warn_offset (totalsize < offset v) st"
  have gc: "get_chunksize totalsize (offset v) st = (cs, st1)"
    by (simp add: get_chunksize_def cs_def st1_def)
  have wrap: "unat (totalsize - offset v) = 2 ^ 32 - (unat (offset v) - unat totalsize)"
    by (rule unat_sub_wrap [OF past])
  have lt: "unat totalsize < unat (offset v)"
    using past by (simp add: word_less_nat_alt)
  have bound: "unat (offset v) < 2 ^ 32"
    by (rule unat_u32_bound)
  define d where "d = totalsize - offset v"
  have "unat (min 4096 d) = min 4096 (unat d)"
    by (simp add: min_def word_le_nat_alt)
  then have ucs: "unat cs = min 4096 (2 ^ 32 - (unat (offset v) - unat totalsize))"
    unfolding cs_def MBOX_XACTION_LEN_def PAGE_SIZE_def d_def [symmetric]
    using wrap [folded d_def] by simp
  have nz: "cs \<noteq> 0"
  proof
    assume "cs = 0"
    then have "unat cs = 0" by simp
    with ucs lt bound show False by (simp add: min_def split: if_splits)
  qed
  have full: "(cs = MBOX_XACTION_LEN) = (unat (offset v) - unat totalsize \<le> 2 ^ 32 - 4096)"
  proof -
    have "(cs = MBOX_XACTION_LEN) = (unat cs = 4096)"
      by (simp add: word_unat_eq_iff MBOX_XACTION_LEN_def PAGE_SIZE_def)
    also have "\<dots> = (unat (offset v) - unat totalsize \<le> 2 ^ 32 - 4096)"
      using ucs lt bound by (auto simp: min_def split: if_splits)
    finally show ?thesis .
  qed
  have k: "klog st1 = (if Warn Warn_offset \<in> set (klog st) then klog st
                    else klog st @ [Warn Warn_offset])"
    using past by (simp add: st1_def WARN_ON_ONCE_klog)
  have t: "trace st1 = trace st" by (simp add: st1_def)
  obtain left v' st' where l: "staging_loop (Suc n) hw mem totalsize v st = (left, v', st')"
    by (cases "staging_loop (Suc n) hw mem totalsize v st") blast
  have loop: "if MBOX_XACTION_MAX totalsize < xaction_bytes v + cs
             then left \<and> state v' = Some UCODE_TIMEOUT \<and> emitted st st' = []
             else (\<exists>rest. emitted st st' =
                     [Writel MBOX_HDR MBOX_WRDATA_OFFSET,
                      Writel (cs div 4 + 4) MBOX_WRDATA_OFFSET,
                      Writel 0x3 MBOX_WRDATA_OFFSET,
                      Writel 0 MBOX_WRDATA_OFFSET] @
                     map (\<lambda>j. Writel (load_u32 mem (unat (offset v) + 4 * j)) MBOX_WRDATA_OFFSET)
                         [0..<unat cs div 4] @
                     [Writel (push_bit 31 1) MBOX_CONTROL_OFFSET] @ rest)"
  proof (cases "MBOX_XACTION_MAX totalsize < xaction_bytes v + cs")
    case True
    with l running show ?thesis
      unfolding staging_loop_Suc Let_def cs_def [symmetric]
      by (auto simp: emitted_def)
  next
    case False
    define st2 where "st2 = request_xaction (chunk_at mem (offset v)) cs st1"
    from staging_loop_Suc_sent [OF running False [unfolded cs_def], of mem st n hw]
    have "extends st2 st'"
      by (simp add: l st2_def st1_def cs_def)
    then have "trace st' = trace st2 @ emitted st2 st'"
      using extendsD by blast
    moreover have "trace st2 = trace st @
        [Writel MBOX_HDR MBOX_WRDATA_OFFSET,
         Writel (cs div 4 + 4) MBOX_WRDATA_OFFSET,
         Writel 0x3 MBOX_WRDATA_OFFSET,
         Writel 0 MBOX_WRDATA_OFFSET] @
        map (\<lambda>j. Writel (load_u32 mem (unat (offset v) + 4 * j)) MBOX_WRDATA_OFFSET)
            [0..<unat cs div 4] @
        [Writel (push_bit 31 1) MBOX_CONTROL_OFFSET]"
      using request_xaction_events [of "chunk_at mem (offset v)" cs st1]
      by (simp add: st2_def t chunk_at_def)
    ultimately have "emitted st st' =
        ([Writel MBOX_HDR MBOX_WRDATA_OFFSET,
         Writel (cs div 4 + 4) MBOX_WRDATA_OFFSET,
         Writel 0x3 MBOX_WRDATA_OFFSET,
         Writel 0 MBOX_WRDATA_OFFSET] @
        map (\<lambda>j. Writel (load_u32 mem (unat (offset v) + 4 * j)) MBOX_WRDATA_OFFSET)
            [0..<unat cs div 4] @
        [Writel (push_bit 31 1) MBOX_CONTROL_OFFSET]) @ emitted st2 st'"
      by (intro emitted_append) simp
    with False show ?thesis by simp
  qed
  show ?thesis
    unfolding gc l prod.case
    by (intro conjI wrap ucs nz full t k loop)
qed

text \<open>
  The theorem for a payload of one page and an offset of two pages: a full page is framed
  from byte \<open>8192\<close> on.
\<close>

theorem get_chunksize_past_end_witness:
  "fst (get_chunksize 4096 8192 (fresh 1)) = MBOX_XACTION_LEN \<and>
   klog (snd (get_chunksize 4096 8192 (fresh 1))) = [Warn Warn_offset] \<and>
   (\<exists>rest. emitted (fresh 1)
       (snd (snd (staging_loop (Suc 0) (hw_reply 0xffffffff) mem0 4096
                   \<lparr>xaction_bytes = 4096, offset = 8192, state = Some UCODE_OK\<rparr> (fresh 1)))) =
     [Writel MBOX_HDR MBOX_WRDATA_OFFSET, Writel 1028 MBOX_WRDATA_OFFSET,
      Writel 0x3 MBOX_WRDATA_OFFSET, Writel 0 MBOX_WRDATA_OFFSET] @
     map (\<lambda>j. Writel (load_u32 mem0 (8192 + 4 * j)) MBOX_WRDATA_OFFSET) [0..<1024] @
     [Writel (push_bit 31 1) MBOX_CONTROL_OFFSET] @ rest)"
proof -
  have d: "(4096 :: u32) div 4 = 1024"
    by (simp add: word_unat_eq_iff unat_div)
  show ?thesis
    using get_chunksize_past_end [where totalsize = 4096
        and v = "\<lparr>xaction_bytes = 4096, offset = 8192, state = Some UCODE_OK\<rparr>"
        and st = "fresh 1" and n = 0 and hw = "hw_reply 0xffffffff" and mem = mem0]
    by (simp add: case_prod_beta STAGING_OFFSET_END_def MBOX_XACTION_LEN_def PAGE_SIZE_def
        MBOX_XACTION_MAX_def fresh_def d)
qed

text \<open>
  The chunk size is not always the full page: a payload of \<open>1024\<close> bytes and the offset
  \<open>0xFFFFFFFE\<close> give \<open>1026\<close>.
\<close>

theorem get_chunksize_short_counterexample:
  "(1024 :: u32) < 0xFFFFFFFE \<and> (0xFFFFFFFE :: u32) \<noteq> STAGING_OFFSET_END \<and>
   fst (get_chunksize 1024 0xFFFFFFFE (fresh 1)) = 1026 \<and>
   fst (get_chunksize 1024 0xFFFFFFFE (fresh 1)) \<noteq> MBOX_XACTION_LEN"
  by (simp add: STAGING_OFFSET_END_def MBOX_XACTION_LEN_def PAGE_SIZE_def)

lemma wrdata_count_simps [simp]:
  "wrdata_count [] = 0"
  "wrdata_count (e # es) = (if is_wrdata e then 1 else 0) + wrdata_count es"
  "wrdata_count (xs @ ys) = wrdata_count xs + wrdata_count ys"
  by (simp_all add: wrdata_count_def)

lemma wrdata_count_payload [simp]:
  "wrdata_count (map (\<lambda>j. Writel (c j) MBOX_WRDATA_OFFSET) xs) = length xs"
  by (induction xs) simp_all

lemma wrdata_count_request_xaction:
  "wrdata_count (trace (request_xaction chunk L st)) =
     wrdata_count (trace st) + 4 + unat L div 4"
  by (simp add: request_xaction_events)

lemma wrdata_count_wait_loop:
  "wrdata_count (trace (wait_for_xaction_loop hw t st)) = wrdata_count (trace st)"
proof (induction hw t st rule: wait_for_xaction_loop.induct)
  case (1 hw t st)
  note IH = 1 [OF _ prod.collapse]
  show ?case
    unfolding wait_loop_unfold [of hw t st] using IH by simp
qed

lemma wrdata_count_wait_for_xaction:
  "wrdata_count (trace (snd (wait_for_xaction hw st))) = wrdata_count (trace st)"
  by (simp add: wait_for_xaction_unfold Let_def wrdata_count_wait_loop)

lemma wrdata_count_read_xaction_response:
  "wrdata_count (trace (snd (snd (read_xaction_response hw st)))) = wrdata_count (trace st)"
  by (simp add: read_xaction_response_unfold)

lemma xaction_window_fields:
  "xact (xaction_window hw mem ts v st) = Suc (xact st)"
  "rds (xaction_window hw mem ts v st) = 4"
  "wrdata_count (trace (xaction_window hw mem ts v st)) =
     wrdata_count (trace st) + 4 + unat (min MBOX_XACTION_LEN (ts - offset v)) div 4"
  by (simp_all add: xaction_window_def wrdata_count_read_xaction_response
      wrdata_count_wait_for_xaction wrdata_count_request_xaction)

lemma extends_xaction_window: "extends st (xaction_window hw mem ts v st)"
proof -
  let ?s1 = "snd (get_chunksize ts (offset v) st)"
  let ?s2 = "request_xaction (chunk_at mem (offset v)) (fst (get_chunksize ts (offset v) st)) ?s1"
  let ?s3 = "snd (wait_for_xaction hw ?s2)"
  have "extends st ?s1" by (rule extends_get_chunksize)
  also have "extends ?s1 ?s2" by (rule extends_request_xaction)
  also have "extends ?s2 ?s3" by (rule extends_wait_for_xaction)
  also have "extends ?s3 (snd (snd (read_xaction_response hw ?s3)))"
    by (rule extends_read_xaction_response)
  finally show ?thesis by (simp only: xaction_window_def)
qed

text \<open>An iteration whose transaction is classified OK goes on to the next one.\<close>

lemma staging_loop_Suc_ok:
  assumes "offset v \<noteq> STAGING_OFFSET_END"
    and "\<not> MBOX_XACTION_MAX ts < xaction_bytes v + min MBOX_XACTION_LEN (ts - offset v)"
    and "xaction_ok hw (Suc (xact st))"
  shows "staging_loop (Suc n) hw mem ts v st =
     staging_loop n hw mem ts
       \<lparr>xaction_bytes = xaction_bytes v + min MBOX_XACTION_LEN (ts - offset v),
        offset = rddata_reads hw (Suc (xact st)) 2, state = Some UCODE_OK\<rparr>
       (xaction_window hw mem ts v st)"
proof -
  define st2 where "st2 = request_xaction (chunk_at mem (offset v))
      (min MBOX_XACTION_LEN (ts - offset v)) (WARN_ON_ONCE Warn_offset (ts < offset v) st)"
  have x2: "xact st2 = Suc (xact st)" and p2: "polls st2 = 0"
    by (simp_all add: st2_def)
  have w: "fst (wait_for_xaction hw st2) = UCODE_OK"
    using wait_result_indep [OF x2 p2, of hw] assms(3) by (simp add: xaction_ok_def)
  have r2: "rds st2 = 0"
    by (simp add: st2_def)
  have r: "\<not> bit (rddata_reads hw (Suc (xact st)) 3) 2"
    using assms(3) by (simp add: xaction_ok_def fresh_def split: if_splits)
  show ?thesis
    unfolding staging_loop_Suc Let_def st2_def [symmetric]
    using assms(1,2) w r
    by (simp add: x2 r2 xaction_window_def st2_def [symmetric] numeral_2_eq_2)
qed

lemma hw_reply_wait:
  "wait_for_xaction (hw_reply x) st =
     (UCODE_OK,
      st\<lparr>polls := Suc (Suc (polls st)),
         trace := trace st @ [Msleep 1, Readl MBOX_STATUS_OFFSET 0x80000000,
                              Readl MBOX_STATUS_OFFSET 0x80000000]\<rparr>)"
  by (simp add: wait_for_xaction_unfold wait_loop_unfold [of _ 0] MBOX_XACTION_TIMEOUT_value
      hw_reply_def readl_def msleep_def Let_def)

lemma hw_reply_ok [simp]: "xaction_ok (hw_reply x) k"
  by (simp add: xaction_ok_def hw_reply_wait) (simp add: hw_reply_def fresh_def)

lemma hw_reply_offset [simp]: "rddata_reads (hw_reply x) k 2 = x"
  by (simp add: hw_reply_def)

lemma go_count_emitted: "extends st st' \<Longrightarrow> go_count (emitted st st') = xact st' - xact st"
  using extendsD [of st st'] by simp

lemma fresh_fields [simp]:
  "xact (fresh k) = k" "polls (fresh k) = 0" "rds (fresh k) = 0"
  "trace (fresh k) = []" "klog (fresh k) = []"
  by (simp_all add: fresh_def)

lemma emitted_fresh [simp]: "emitted (fresh k) st = trace st"
  by (simp add: emitted_def)

lemma hw_reply_mapped [simp]: "ioremap_ok (hw_reply x) pa n"
  by (simp add: hw_reply_def)

subsection \<open>A device that keeps answering ``next offset = totalsize''\<close>

lemma stuck_loop:
  "offset v = 4096 \<Longrightarrow> xaction_bytes v = 4096 \<Longrightarrow>
   \<not> fst (staging_loop n (hw_reply 4096) mem 4096 v st) \<and>
   xact (snd (snd (staging_loop n (hw_reply 4096) mem 4096 v st))) = xact st + n"
proof (induction n arbitrary: v st)
  case 0
  then show ?case by (simp add: STAGING_OFFSET_END_def)
next
  case (Suc n)
  have step: "staging_loop (Suc n) (hw_reply 4096) mem 4096 v st =
     staging_loop n (hw_reply 4096) mem 4096
       \<lparr>xaction_bytes = xaction_bytes v + min MBOX_XACTION_LEN (4096 - offset v),
        offset = rddata_reads (hw_reply 4096) (Suc (xact st)) 2, state = Some UCODE_OK\<rparr>
       (xaction_window (hw_reply 4096) mem 4096 v st)"
    by (rule staging_loop_Suc_ok)
       (simp_all add: Suc.prems STAGING_OFFSET_END_def MBOX_XACTION_MAX_def
          MBOX_XACTION_LEN_def PAGE_SIZE_def)
  show ?case
    unfolding step
    using Suc.IH [of "\<lparr>xaction_bytes = xaction_bytes v + min MBOX_XACTION_LEN (4096 - offset v),
        offset = rddata_reads (hw_reply 4096) (Suc (xact st)) 2, state = Some UCODE_OK\<rparr>"
        "xaction_window (hw_reply 4096) mem 4096 v st"]
    by (simp add: Suc.prems xaction_window_fields MBOX_XACTION_LEN_def PAGE_SIZE_def)
qed

text \<open>
  Claim C3 at a failing input: a payload of one page, and a device that is always ready and
  answers every request with success and next offset \<open>4096\<close>, the payload size, never the
  end marker. After the first chunk every chunk has size zero, the byte count stays at
  \<open>4096\<close>, and the loop is never left: for every number \<open>n\<close> of iterations, \<open>staging_work\<close>
  has not returned and has sent \<open>n\<close> requests.
\<close>

theorem staging_work_livelock:
  "\<forall>n. fst (staging_work n (hw_reply 4096) 0 mem0 4096 (fresh 0)) = None \<and>
       go_count (trace (snd (staging_work n (hw_reply 4096) 0 mem0 4096 (fresh 0)))) = n"
proof
  fix n
  define st0 where "st0 = abort_xaction ((fresh 0)\<lparr>trace := trace (fresh 0) @ [Ioremap 0 16 True]\<rparr>)"
  define v0 where "v0 = \<lparr>xaction_bytes = 0, offset = 0, state = None\<rparr>"
  have x0: "xact st0 = 0" by (simp add: st0_def)
  have l: "\<not> fst (staging_loop n (hw_reply 4096) mem0 4096 v0 st0) \<and>
      xact (snd (snd (staging_loop n (hw_reply 4096) mem0 4096 v0 st0))) = n"
  proof (cases n)
    case 0
    then show ?thesis by (simp add: v0_def x0)
  next
    case (Suc m)
    have step: "staging_loop (Suc m) (hw_reply 4096) mem0 4096 v0 st0 =
       staging_loop m (hw_reply 4096) mem0 4096
         \<lparr>xaction_bytes = xaction_bytes v0 + min MBOX_XACTION_LEN (4096 - offset v0),
          offset = rddata_reads (hw_reply 4096) (Suc (xact st0)) 2, state = Some UCODE_OK\<rparr>
         (xaction_window (hw_reply 4096) mem0 4096 v0 st0)"
      by (rule staging_loop_Suc_ok)
         (simp_all add: v0_def MBOX_XACTION_MAX_def MBOX_XACTION_LEN_def PAGE_SIZE_def)
    show ?thesis
      unfolding Suc step
      using stuck_loop [of "\<lparr>xaction_bytes = xaction_bytes v0 + min MBOX_XACTION_LEN (4096 - offset v0),
          offset = rddata_reads (hw_reply 4096) (Suc (xact st0)) 2, state = Some UCODE_OK\<rparr>"
          m mem0 "xaction_window (hw_reply 4096) mem0 4096 v0 st0"]
      by (simp add: v0_def x0 xaction_window_fields MBOX_XACTION_LEN_def PAGE_SIZE_def)
  qed
  have r: "fst (staging_work n (hw_reply 4096) 0 mem0 4096 (fresh 0)) = None"
    and s: "snd (staging_work n (hw_reply 4096) 0 mem0 4096 (fresh 0)) =
        snd (snd (staging_loop n (hw_reply 4096) mem0 4096 v0 st0))"
    unfolding staging_work_unfold Let_def using l
    by (simp_all add: st0_def v0_def)
  have "go_count (emitted (fresh 0) (snd (staging_work n (hw_reply 4096) 0 mem0 4096 (fresh 0)))) =
      xact (snd (staging_work n (hw_reply 4096) 0 mem0 4096 (fresh 0))) - xact (fresh 0)"
    by (rule go_count_emitted [OF extends_staging_work])
  with l s have "go_count (trace (snd (staging_work n (hw_reply 4096) 0 mem0 4096 (fresh 0)))) = n"
    by simp
  with r show "fst (staging_work n (hw_reply 4096) 0 mem0 4096 (fresh 0)) = None \<and>
       go_count (trace (snd (staging_work n (hw_reply 4096) 0 mem0 4096 (fresh 0)))) = n"
    by simp
qed

subsection \<open>A device that keeps answering ``next offset = 0''\<close>

lemma page_multiple_bound:
  "unat x mod 4096 = 0 \<Longrightarrow> x \<le> 0xFFFFF000" for x :: u32
proof -
  assume m: "unat x mod 4096 = 0"
  define d where "d = unat x div 4096"
  have "unat x < 1048576 * 4096" using unat_u32_bound [of x] by simp
  then have "d < 1048576" unfolding d_def by (simp only: div_less_iff_less_mult zero_less_numeral)
  moreover have "unat x = 4096 * d"
    unfolding d_def using m by (metis add.right_neutral mult_div_mod_eq)
  ultimately have "unat x \<le> 4294963200" by linarith
  then show ?thesis by (simp add: word_le_nat_alt)
qed

lemma page_multiple_add:
  "unat x mod 4096 = 0 \<Longrightarrow> unat (x + 4096) mod 4096 = 0" for x :: u32
proof -
  assume m: "unat x mod 4096 = 0"
  have "unat (x + 4096) = (unat x + 4096) mod 4294967296"
    by (simp add: unat_word_ariths)
  also have "\<dots> mod 4096 = (unat x + 4096) mod 4096"
    by (rule mod_mod_cancel) simp
  finally show ?thesis using m by simp
qed

lemma resend_loop:
  "offset v = 0 \<Longrightarrow> unat (xaction_bytes v) mod 4096 = 0 \<Longrightarrow>
   \<not> fst (staging_loop n (hw_reply 0) mem 0x7FFFFFFF v st) \<and>
   xaction_bytes (fst (snd (staging_loop n (hw_reply 0) mem 0x7FFFFFFF v st))) =
     xaction_bytes v + 4096 * of_nat n \<and>
   xact (snd (snd (staging_loop n (hw_reply 0) mem 0x7FFFFFFF v st))) = xact st + n \<and>
   wrdata_count (trace (snd (snd (staging_loop n (hw_reply 0) mem 0x7FFFFFFF v st)))) =
     wrdata_count (trace st) + 1028 * n"
proof (induction n arbitrary: v st)
  case 0
  then show ?case by simp
next
  case (Suc n)
  have cs: "min MBOX_XACTION_LEN (0x7FFFFFFF - offset v) = 4096"
    by (simp add: Suc.prems MBOX_XACTION_LEN_def PAGE_SIZE_def)
  have cs': "min MBOX_XACTION_LEN (0x7FFFFFFF :: u32) = 4096"
    by (simp add: MBOX_XACTION_LEN_def PAGE_SIZE_def)
  have "xaction_bytes v + 4096 \<le> 0xFFFFF000"
    by (rule page_multiple_bound [OF page_multiple_add [OF Suc.prems(2)]])
  also have "\<dots> \<le> (0xFFFFFFFE :: u32)" by simp
  finally have budget: "\<not> MBOX_XACTION_MAX 0x7FFFFFFF < xaction_bytes v + 4096"
    by (simp add: MBOX_XACTION_MAX_def not_less)
  define v2 where "v2 = \<lparr>xaction_bytes = xaction_bytes v + 4096, offset = 0,
      state = Some UCODE_OK\<rparr>"
  define st2 where "st2 = xaction_window (hw_reply 0) mem 0x7FFFFFFF v st"
  have step: "staging_loop (Suc n) (hw_reply 0) mem 0x7FFFFFFF v st =
     staging_loop n (hw_reply 0) mem 0x7FFFFFFF v2 st2"
    using staging_loop_Suc_ok [where v = v and ts = "0x7FFFFFFF" and hw = "hw_reply 0"
        and st = st and n = n and mem = mem] budget
    by (simp add: cs cs' Suc.prems STAGING_OFFSET_END_def v2_def st2_def)
  have x2: "xact st2 = Suc (xact st)"
    and w2: "wrdata_count (trace st2) = wrdata_count (trace st) + 1028"
    by (simp_all add: st2_def xaction_window_fields cs cs' Suc.prems)
  have "offset v2 = 0" and "unat (xaction_bytes v2) mod 4096 = 0"
    using page_multiple_add [OF Suc.prems(2)] by (simp_all add: v2_def)
  from Suc.IH [OF this, where st = st2] show ?case
    unfolding step by (simp add: v2_def x2 w2 algebra_simps)
qed

text \<open>
  Claim C2 at a failing input: a payload of \<open>0x7FFFFFFF\<close> bytes, so that \<open>2 * totalsize\<close> is
  \<open>0xFFFFFFFE\<close>, and a device that is always ready and answers every request with success
  and next offset \<open>0\<close>. Every chunk is a full page. After \<open>2^20 - 1\<close> chunks
  \<open>xaction_bytes\<close> is \<open>0xFFFFF000\<close>; at the \<open>2^20\<close>-th chunk the 32-bit sum
  \<open>xaction_bytes + chunksize\<close> wraps to \<open>0\<close>, and the budget test lets it pass. After
  \<open>2^20 + 1\<close> iterations the loop is still running, \<open>xaction_bytes\<close> is \<open>4096\<close>, and the
  payload dwords written (all writes to the write-data register but four header words per
  request) amount to \<open>2^32 + 4096\<close> bytes, more than twice the payload size.
\<close>

theorem staging_work_budget_wraps:
  "(case staging_work 1048577 (hw_reply 0) 0 mem0 0x7FFFFFFF (fresh 0) of
      (r, st') \<Rightarrow>
        r = None \<and> go_count (trace st') = 1048577 \<and>
        4 * (wrdata_count (trace st') - 4 * go_count (trace st')) = 4294971392 \<and>
        2 * unat (0x7FFFFFFF :: u32) < 4 * (wrdata_count (trace st') - 4 * go_count (trace st'))) \<and>
   xaction_bytes (fst (snd (staging_loop 1048577 (hw_reply 0) mem0 0x7FFFFFFF
       \<lparr>xaction_bytes = 0, offset = 0, state = None\<rparr>
       (abort_xaction ((fresh 0)\<lparr>trace := trace (fresh 0) @ [Ioremap 0 16 True]\<rparr>))))) = 4096"
proof -
  define st0 where "st0 = abort_xaction ((fresh 0)\<lparr>trace := trace (fresh 0) @ [Ioremap 0 16 True]\<rparr>)"
  define v0 where "v0 = \<lparr>xaction_bytes = 0, offset = 0, state = None\<rparr>"
  define l where "l = staging_loop 1048577 (hw_reply 0) mem0 0x7FFFFFFF v0 st0"
  have x0: "xact st0 = 0" and w0: "wrdata_count (trace st0) = 0"
    by (simp_all add: st0_def)
  have run: "\<not> fst l \<and> xaction_bytes (fst (snd l)) = 4096 \<and> xact (snd (snd l)) = 1048577 \<and>
      wrdata_count (trace (snd (snd l))) = 1077937156"
    using resend_loop [of v0 1048577 mem0 st0]
    by (simp add: l_def v0_def x0 w0)
  have r: "fst (staging_work 1048577 (hw_reply 0) 0 mem0 0x7FFFFFFF (fresh 0)) = None"
    and s: "snd (staging_work 1048577 (hw_reply 0) 0 mem0 0x7FFFFFFF (fresh 0)) = snd (snd l)"
    unfolding staging_work_unfold Let_def using run
    by (simp_all add: st0_def v0_def l_def)
  have "go_count (emitted (fresh 0) (snd (staging_work 1048577 (hw_reply 0) 0 mem0 0x7FFFFFFF (fresh 0)))) =
      xact (snd (staging_work 1048577 (hw_reply 0) 0 mem0 0x7FFFFFFF (fresh 0))) - xact (fresh 0)"
    by (rule go_count_emitted [OF extends_staging_work])
  then have g: "go_count (trace (snd (staging_work 1048577 (hw_reply 0) 0 mem0 0x7FFFFFFF (fresh 0)))) = 1048577"
    using run s by simp
  show ?thesis
    using r g run s
    by (simp add: case_prod_beta l_def v0_def st0_def)
qed

subsection \<open>Responses in sequence\<close>

lemma staging_loop_at_end:
  "offset v = STAGING_OFFSET_END \<Longrightarrow> staging_loop n hw mem ts v st = (True, v, st)"
  by (cases n) (simp_all add: staging_loop_Suc)

lemma chunk_count_more:
  "j < max 1 (chunk_count S) \<Longrightarrow> (j + 1) * 4096 < S \<Longrightarrow> j + 1 < max 1 (chunk_count S)"
  by (auto simp: max_def chunk_count_def)

lemma chunk_count_last:
  "j < max 1 (chunk_count S) \<Longrightarrow> \<not> (j + 1) * 4096 < S \<Longrightarrow> max 1 (chunk_count S) = j + 1"
  by (auto simp: max_def chunk_count_def)

lemma chunk_count_within:
  "j < max 1 (chunk_count S) \<Longrightarrow> 4096 * j \<le> S"
  by (auto simp: max_def chunk_count_def split: if_splits)

lemma unat_of_nat_u32: "x < 2 ^ 32 \<Longrightarrow> unat (word_of_nat x :: u32) = x"
  by (simp add: unat_of_nat)

text \<open>
  The arithmetic of one in-sequence iteration, on a payload below \<open>2^31\<close> bytes: the chunk
  is what is left of the payload, at most one page, and it fits the budget.
\<close>

lemma in_sequence_chunk:
  fixes ts :: u32
  assumes small: "unat ts < 2 ^ 31" and within: "4096 * j \<le> unat ts"
  defines "off \<equiv> (word_of_nat (4096 * j) :: u32)"
  shows "unat (min MBOX_XACTION_LEN (ts - off)) = min 4096 (unat ts - 4096 * j)"
    and "\<not> MBOX_XACTION_MAX ts < off + min MBOX_XACTION_LEN (ts - off)"
    and "4096 * (j + 1) < unat ts \<Longrightarrow> off + min MBOX_XACTION_LEN (ts - off) = word_of_nat (4096 * (j + 1))"
    and "off \<noteq> STAGING_OFFSET_END"
    and "unat off = 4096 * j"
    and "\<not> 4096 * (j + 1) < unat ts \<Longrightarrow> off + min MBOX_XACTION_LEN (ts - off) = ts"
proof -
  show uo: "unat off = 4096 * j"
    unfolding off_def using small within by (intro unat_of_nat_u32) simp
  have le: "off \<le> ts" using within by (simp add: word_le_nat_alt uo)
  have ud: "unat (ts - off) = unat ts - 4096 * j"
    by (simp add: unat_sub [OF le] uo)
  define d where "d = ts - off"
  have "unat (min 4096 d) = min 4096 (unat d)"
    by (simp add: min_def word_le_nat_alt)
  then show cs: "unat (min MBOX_XACTION_LEN (ts - off)) = min 4096 (unat ts - 4096 * j)"
    unfolding MBOX_XACTION_LEN_def PAGE_SIZE_def d_def [symmetric]
    using ud [folded d_def] by simp
  define c where "c = min MBOX_XACTION_LEN (ts - off)"
  have uc: "unat c = min 4096 (unat ts - 4096 * j)" using cs by (simp add: c_def)
  have sum: "unat (off + c) = 4096 * j + min 4096 (unat ts - 4096 * j)"
  proof -
    have "unat off + unat c < 2 ^ LENGTH(32)"
      using uo uc small within by (simp add: min_def)
    then have "unat (off + c) = unat off + unat c"
      by (simp only: unat_add_lem)
    then show ?thesis by (simp add: uo uc)
  qed
  have max2: "unat (MBOX_XACTION_MAX ts) = 2 * unat ts"
  proof -
    have "unat ts * unat (2 :: u32) < 2 ^ LENGTH(32)" using small by simp
    then have "unat (ts * 2) = unat ts * unat (2 :: u32)"
      by (simp only: unat_mult_lem)
    then show ?thesis by (simp add: MBOX_XACTION_MAX_def)
  qed
  have "4096 * j + min 4096 (unat ts - 4096 * j) \<le> 2 * unat ts"
    using within by linarith
  then show "\<not> MBOX_XACTION_MAX ts < off + min MBOX_XACTION_LEN (ts - off)"
    unfolding c_def [symmetric]
    by (simp only: word_less_nat_alt sum max2 not_less)
  show "off + min MBOX_XACTION_LEN (ts - off) = word_of_nat (4096 * (j + 1))"
    if "4096 * (j + 1) < unat ts"
  proof -
    have "unat c = 4096" using uc that by (simp add: min_def)
    then have "c = 4096" by (simp add: word_unat_eq_iff)
    then show ?thesis unfolding c_def [symmetric] by (simp add: off_def)
  qed
  show "off \<noteq> STAGING_OFFSET_END"
  proof
    assume "off = STAGING_OFFSET_END"
    then have "unat off = unat STAGING_OFFSET_END" by simp
    with uo within small show False by (simp add: STAGING_OFFSET_END_def)
  qed
  show "off + min MBOX_XACTION_LEN (ts - off) = ts" if "\<not> 4096 * (j + 1) < unat ts"
  proof -
    have "unat c = unat (ts - off)" using uc ud that by (auto simp: min_def)
    then have "c = ts - off" by (simp add: word_unat_eq_iff)
    then show ?thesis unfolding c_def [symmetric] by simp
  qed
qed

lemma in_sequence_Suc:
  "off \<noteq> STAGING_OFFSET_END \<Longrightarrow>
   in_sequence (Suc n) hw ts k off =
     (xaction_ok hw (Suc k) \<and>
      rddata_reads hw (Suc k) 2 = next_offset ts off (min MBOX_XACTION_LEN (ts - off)) \<and>
      in_sequence n hw ts (Suc k) (rddata_reads hw (Suc k) 2))"
  by simp

lemma chunk_sum_lt:
  "4096 * j \<le> (S::nat) \<Longrightarrow>
     (4096 * j + min 4096 (S - 4096 * j) < S) = ((j + 1) * 4096 < S)"
proof -
  assume w: "4096 * j \<le> S"
  have e: "(j + 1) * 4096 = 4096 * j + 4096" by simp
  show ?thesis
  proof (cases "4096 \<le> S - 4096 * j")
    case True
    then have "min 4096 (S - 4096 * j) = 4096" by simp
    then show ?thesis unfolding e by simp
  next
    case False
    then have m: "min 4096 (S - 4096 * j) = S - 4096 * j" by simp
    from False w have "\<not> 4096 * j + 4096 < S" by linarith
    moreover from w have "\<not> 4096 * j + (S - 4096 * j) < S" by linarith
    ultimately show ?thesis unfolding e m by simp
  qed
qed

lemma chunk_words_split:
  "(c::nat) = 4096 \<Longrightarrow> 4096 * (j + 1) < S \<Longrightarrow>
     c div 4 + (S - 4096 * (j + 1)) div 4 = (S - 4096 * j) div 4"
proof -
  assume c: "c = 4096" and l: "4096 * (j + 1) < S"
  define r where "r = S - 4096 * (j + 1)"
  have s: "S - 4096 * j = r + 4 * 1024" using l by (simp add: r_def)
  show ?thesis unfolding c s r_def [symmetric] by simp
qed

text \<open>
  The loop on a payload below \<open>2^31\<close> bytes, \<open>j\<close> full chunks into an in-sequence
  transfer: it is left with \<open>UCODE_OK\<close> at the end marker, after the remaining requests,
  with the whole payload counted in \<open>xaction_bytes\<close> and the remaining payload dwords
  written.
\<close>

lemma in_sequence_loop:
  assumes small: "unat ts < 2 ^ 31"
  shows "j < max 1 (chunk_count (unat ts)) \<Longrightarrow> max 1 (chunk_count (unat ts)) - j \<le> n \<Longrightarrow>
     in_sequence n hw ts (xact st) (offset v) \<Longrightarrow>
     offset v = word_of_nat (4096 * j) \<Longrightarrow>
     xaction_bytes v = word_of_nat (4096 * j) \<Longrightarrow>
     fst (staging_loop n hw mem ts v st) \<and>
     state (fst (snd (staging_loop n hw mem ts v st))) = Some UCODE_OK \<and>
     offset (fst (snd (staging_loop n hw mem ts v st))) = STAGING_OFFSET_END \<and>
     xaction_bytes (fst (snd (staging_loop n hw mem ts v st))) = ts \<and>
     xact (snd (snd (staging_loop n hw mem ts v st))) =
       xact st + (max 1 (chunk_count (unat ts)) - j) \<and>
     wrdata_count (trace (snd (snd (staging_loop n hw mem ts v st)))) =
       wrdata_count (trace st) + 4 * (max 1 (chunk_count (unat ts)) - j) +
       (unat ts - 4096 * j) div 4"
proof (induction n arbitrary: j v st)
  case 0
  then have False by linarith
  then show ?case ..
next
  case (Suc n)
  let ?N = "max 1 (chunk_count (unat ts))"
  let ?cs = "min MBOX_XACTION_LEN (ts - offset v)"
  have within: "4096 * j \<le> unat ts" by (rule chunk_count_within [OF Suc.prems(1)])
  note arith = in_sequence_chunk [OF small within, folded Suc.prems(4)]
  have running: "offset v \<noteq> STAGING_OFFSET_END" by (rule arith(4))
  from Suc.prems(3) [unfolded in_sequence_Suc [OF running]]
  have ok: "xaction_ok hw (Suc (xact st))"
    and reply: "rddata_reads hw (Suc (xact st)) 2 = next_offset ts (offset v) ?cs"
    and rest: "in_sequence n hw ts (Suc (xact st)) (rddata_reads hw (Suc (xact st)) 2)"
    by blast+
  define v2 where "v2 = \<lparr>xaction_bytes = xaction_bytes v + ?cs,
      offset = rddata_reads hw (Suc (xact st)) 2, state = Some UCODE_OK\<rparr>"
  define st2 where "st2 = xaction_window hw mem ts v st"
  have budget: "\<not> MBOX_XACTION_MAX ts < xaction_bytes v + ?cs"
    using arith(2) by (simp add: Suc.prems(4,5))
  have step: "staging_loop (Suc n) hw mem ts v st = staging_loop n hw mem ts v2 st2"
    unfolding v2_def st2_def
    by (rule staging_loop_Suc_ok [OF running budget ok])
  have x2: "xact st2 = Suc (xact st)"
    and w2: "wrdata_count (trace st2) = wrdata_count (trace st) + 4 + unat ?cs div 4"
    by (simp_all add: st2_def xaction_window_fields)
  have sum: "unat (offset v) + unat ?cs = 4096 * j + min 4096 (unat ts - 4096 * j)"
    by (simp only: arith(1) arith(5))
  have o2: "offset v2 = (if (j + 1) * 4096 < unat ts then offset v + ?cs
      else STAGING_OFFSET_END)"
  proof -
    have "(unat (offset v) + unat ?cs < unat ts) = ((j + 1) * 4096 < unat ts)"
      unfolding sum by (rule chunk_sum_lt [OF within])
    then show ?thesis by (simp add: v2_def reply next_offset_def)
  qed
  show ?case
  proof (cases "(j + 1) * 4096 < unat ts")
    case True
    then have T: "4096 * (j + 1) < unat ts" by (simp add: mult.commute)
    have more: "j + 1 < ?N" by (rule chunk_count_more [OF Suc.prems(1) True])
    have fuel: "?N - (j + 1) \<le> n" using Suc.prems(2) by simp
    have off2: "offset v2 = word_of_nat (4096 * (j + 1))"
      using o2 True arith(3) [OF T] by simp
    have xb2: "xaction_bytes v2 = word_of_nat (4096 * (j + 1))"
      using arith(3) [OF T] by (simp add: v2_def Suc.prems(4,5))
    have seq2: "in_sequence n hw ts (xact st2) (offset v2)"
      using rest by (simp add: x2 v2_def)
    have cs4: "unat ?cs div 4 + (unat ts - 4096 * (j + 1)) div 4 = (unat ts - 4096 * j) div 4"
    proof -
      have "4096 \<le> unat ts - 4096 * j" using T by simp
      then have "unat ?cs = 4096" unfolding arith(1) by simp
      then show ?thesis by (rule chunk_words_split [OF _ T])
    qed
    have cnt: "Suc (?N - (j + 1)) = ?N - j" using more by simp
    from Suc.IH [OF more fuel seq2 off2 xb2] cs4 cnt show ?thesis
      unfolding step by (simp add: x2 w2)
  next
    case False
    then have F: "\<not> 4096 * (j + 1) < unat ts" by (simp add: mult.commute)
    have last: "?N = j + 1" by (rule chunk_count_last [OF Suc.prems(1) False])
    have "offset v2 = STAGING_OFFSET_END" using o2 False by simp
    then have l: "staging_loop n hw mem ts v2 st2 = (True, v2, st2)"
      by (rule staging_loop_at_end)
    have xb2: "xaction_bytes v2 = ts"
      using arith(6) [OF F] by (simp add: v2_def Suc.prems(4,5))
    have "unat ts - 4096 * j \<le> 4096" using F by simp
    then have "min 4096 (unat ts - 4096 * j) = unat ts - 4096 * j" by (rule min_absorb2)
    then have "unat ?cs = unat ts - 4096 * j" unfolding arith(1) .
    then show ?thesis
      unfolding step l using last x2 w2 o2 False xb2 by (simp add: v2_def)
  qed
qed

lemma in_sequence_work:
  assumes small: "unat ts < 2 ^ 31"
    and mapped: "ioremap_ok hw pa 16"
    and seq: "in_sequence n hw ts (xact st) 0"
    and fuel: "max 1 (chunk_count (unat ts)) \<le> n"
  shows "fst (staging_work n hw pa mem ts st) = Some True"
    and "xact (snd (staging_work n hw pa mem ts st)) = xact st + max 1 (chunk_count (unat ts))"
    and "wrdata_count (trace (snd (staging_work n hw pa mem ts st))) =
       wrdata_count (trace st) + 4 * max 1 (chunk_count (unat ts)) + unat ts div 4"
proof -
  define st0 where "st0 = abort_xaction (st\<lparr>trace := trace st @ [Ioremap pa 16 True]\<rparr>)"
  define v0 where "v0 = \<lparr>xaction_bytes = 0, offset = 0, state = None\<rparr>"
  have x0: "xact st0 = xact st" by (simp add: st0_def)
  have w0: "wrdata_count (trace st0) = wrdata_count (trace st)"
    by (simp add: st0_def abort_xaction_def writel_def
        MBOX_CONTROL_OFFSET_def MBOX_WRDATA_OFFSET_def)
  have j0: "0 < max 1 (chunk_count (unat ts))" by simp
  have f0: "max 1 (chunk_count (unat ts)) - 0 \<le> n" using fuel by simp
  have s0: "in_sequence n hw ts (xact st0) (offset v0)" using seq by (simp add: x0 v0_def)
  have o0: "offset v0 = word_of_nat (4096 * 0)" by (simp add: v0_def)
  have b0: "xaction_bytes v0 = word_of_nat (4096 * 0)" by (simp add: v0_def)
  note run = in_sequence_loop [OF small j0 f0 s0 o0 b0, of mem]
  from run have left: "fst (staging_loop n hw mem ts v0 st0)"
    and ok: "state (fst (snd (staging_loop n hw mem ts v0 st0))) = Some UCODE_OK"
    and xa: "xact (snd (snd (staging_loop n hw mem ts v0 st0))) =
        xact st + max 1 (chunk_count (unat ts))"
    and wr: "wrdata_count (trace (snd (snd (staging_loop n hw mem ts v0 st0)))) =
        wrdata_count (trace st) + 4 * max 1 (chunk_count (unat ts)) + unat ts div 4"
    by (simp_all add: x0 w0)
  show "fst (staging_work n hw pa mem ts st) = Some True"
    unfolding staging_work_unfold Let_def st0_def [symmetric] v0_def [symmetric]
    using mapped left ok by simp
  show "xact (snd (staging_work n hw pa mem ts st)) = xact st + max 1 (chunk_count (unat ts))"
    unfolding staging_work_unfold Let_def st0_def [symmetric] v0_def [symmetric]
    using mapped left ok xa by simp
  show "wrdata_count (trace (snd (staging_work n hw pa mem ts st))) =
       wrdata_count (trace st) + 4 * max 1 (chunk_count (unat ts)) + unat ts div 4"
    unfolding staging_work_unfold Let_def st0_def [symmetric] v0_def [symmetric]
    using mapped left ok wr by simp
qed

text \<open>
  Claim C8, amended. For a payload of \<open>S\<close> bytes, \<open>S\<close> below \<open>2^31\<close>, when the mapping
  succeeds and the device answers in sequence (every transaction classified OK, each
  response reporting as next offset the offset past the chunk just sent, and the end marker
  \<open>0xFFFFFFFF\<close> after the chunk that reaches the last byte), \<open>staging_work\<close> returns true
  after sending exactly \<open>chunk_count S\<close> requests, that is \<open>S / 4096\<close> rounded up, for
  \<open>S > 0\<close>, and exactly one request for \<open>S = 0\<close>; in particular exactly one request for
  every \<open>S\<close> of at most one page. The requests carry four header dwords each and
  \<open>S div 4\<close> payload dwords in all, so that the one request for \<open>S = 0\<close> has an empty
  payload.
\<close>

theorem in_sequence_chunks:
  assumes small: "unat totalsize < 2 ^ 31"
    and mapped: "ioremap_ok hw mmio_pa 16"
    and seq: "in_sequence n hw totalsize (xact st) 0"
    and fuel: "max 1 (chunk_count (unat totalsize)) \<le> n"
  shows "fst (staging_work n hw mmio_pa mem totalsize st) = Some True \<and>
     go_count (emitted st (snd (staging_work n hw mmio_pa mem totalsize st))) =
       (if 0 < unat totalsize then chunk_count (unat totalsize) else 1) \<and>
     (if unat totalsize \<le> 4096
      then go_count (emitted st (snd (staging_work n hw mmio_pa mem totalsize st))) = 1
      else True) \<and>
     wrdata_count (emitted st (snd (staging_work n hw mmio_pa mem totalsize st))) =
       4 * go_count (emitted st (snd (staging_work n hw mmio_pa mem totalsize st))) +
       unat totalsize div 4"
proof -
  let ?st' = "snd (staging_work n hw mmio_pa mem totalsize st)"
  note e = extends_staging_work [of st n hw mmio_pa mem totalsize]
  have tr: "trace ?st' = trace st @ emitted st ?st'"
    using extendsD [OF e] by simp
  have "go_count (emitted st ?st') = xact ?st' - xact st"
    by (rule go_count_emitted [OF e])
  also have "\<dots> = max 1 (chunk_count (unat totalsize))"
    by (simp add: in_sequence_work(2) [OF small mapped seq fuel])
  finally have g: "go_count (emitted st ?st') = max 1 (chunk_count (unat totalsize))" .
  have "wrdata_count (trace st) + wrdata_count (emitted st ?st') = wrdata_count (trace ?st')"
    by (subst tr) simp
  also have "\<dots> = wrdata_count (trace st) + 4 * max 1 (chunk_count (unat totalsize)) +
      unat totalsize div 4"
    by (rule in_sequence_work(3) [OF small mapped seq fuel])
  finally have w: "wrdata_count (emitted st ?st') =
      4 * go_count (emitted st ?st') + unat totalsize div 4"
    unfolding g by simp
  have c0: "0 < unat totalsize \<Longrightarrow> max 1 (chunk_count (unat totalsize)) = chunk_count (unat totalsize)"
    unfolding chunk_count_def by linarith
  have c1: "unat totalsize \<le> 4096 \<Longrightarrow> max 1 (chunk_count (unat totalsize)) = 1"
    unfolding chunk_count_def by linarith
  have c2: "\<not> 0 < unat totalsize \<Longrightarrow> max 1 (chunk_count (unat totalsize)) = 1"
    unfolding chunk_count_def by simp
  have r1: "go_count (emitted st ?st') =
      (if 0 < unat totalsize then chunk_count (unat totalsize) else 1)"
  proof (cases "0 < unat totalsize")
    case True
    with g c0 show ?thesis by simp
  next
    case False
    with g c2 show ?thesis by simp
  qed
  have r2: "if unat totalsize \<le> 4096 then go_count (emitted st ?st') = 1 else True"
  proof (cases "unat totalsize \<le> 4096")
    case True
    with g c1 show ?thesis by simp
  next
    case False
    then show ?thesis by simp
  qed
  from in_sequence_work(1) [OF small mapped seq fuel] r1 r2 w show ?thesis
    by (intro conjI)
qed

text \<open>
  The theorem for a payload of three pages, answered in sequence: three requests, with
  twelve header dwords and \<open>3072\<close> payload dwords.
\<close>

lemma hw_in_sequence_wait:
  "wait_for_xaction (hw_in_sequence S) st =
     (UCODE_OK,
      st\<lparr>polls := Suc (Suc (polls st)),
         trace := trace st @ [Msleep 1, Readl MBOX_STATUS_OFFSET 0x80000000,
                              Readl MBOX_STATUS_OFFSET 0x80000000]\<rparr>)"
  by (simp add: wait_for_xaction_unfold wait_loop_unfold [of _ 0] MBOX_XACTION_TIMEOUT_value
      hw_in_sequence_def readl_def msleep_def Let_def)

lemma hw_in_sequence_ok: "xaction_ok (hw_in_sequence S) k"
  by (simp add: xaction_ok_def hw_in_sequence_wait) (simp add: hw_in_sequence_def)

lemma hw_in_sequence_reply:
  "rddata_reads (hw_in_sequence S) k 2 =
     (if k * 4096 < S then word_of_nat (k * 4096) else 0xffffffff)"
  by (simp add: hw_in_sequence_def)

lemma hw_in_sequence_3: "in_sequence 3 (hw_in_sequence 12288) 12288 0 0"
  by (simp add: numeral_3_eq_3 hw_in_sequence_ok hw_in_sequence_reply get_chunksize_def
      next_offset_def STAGING_OFFSET_END_def MBOX_XACTION_LEN_def PAGE_SIZE_def)

theorem in_sequence_chunks_witness:
  "fst (staging_work 3 (hw_in_sequence 12288) 0 mem0 12288 (fresh 0)) = Some True \<and>
   go_count (trace (snd (staging_work 3 (hw_in_sequence 12288) 0 mem0 12288 (fresh 0)))) = 3 \<and>
   wrdata_count (trace (snd (staging_work 3 (hw_in_sequence 12288) 0 mem0 12288 (fresh 0)))) =
     3084 \<and>
   chunk_count 12288 = 3"
  using in_sequence_chunks [where totalsize = 12288 and hw = "hw_in_sequence 12288"
      and mmio_pa = 0 and st = "fresh 0" and n = 3 and mem = mem0]
  by (simp add: hw_in_sequence_3 chunk_count_def) (simp add: hw_in_sequence_def)

text \<open>
  An empty payload is not transferred in zero requests: the device that answers the end
  marker at once gets one request, of four header dwords and no payload, and
  \<open>chunk_count 0\<close> is \<open>0\<close>.
\<close>

theorem empty_payload_counterexample:
  "fst (staging_work 1 (hw_reply 0xffffffff) 0 mem0 0 (fresh 0)) = Some True \<and>
   go_count (trace (snd (staging_work 1 (hw_reply 0xffffffff) 0 mem0 0 (fresh 0)))) = 1 \<and>
   wrdata_count (trace (snd (staging_work 1 (hw_reply 0xffffffff) 0 mem0 0 (fresh 0)))) = 4 \<and>
   chunk_count (unat (0 :: u32)) = 0"
proof -
  have seq: "in_sequence 1 (hw_reply 0xffffffff) 0 (xact (fresh 0)) 0"
    by (simp add: fresh_def get_chunksize_def next_offset_def STAGING_OFFSET_END_def)
  have small: "unat (0 :: u32) < 2 ^ 31" by simp
  have fuel: "max 1 (chunk_count (unat (0 :: u32))) \<le> 1" by (simp add: chunk_count_def)
  have m: "ioremap_ok (hw_reply 0xffffffff) 0 16" by simp
  note w = in_sequence_work [OF small m seq fuel, of mem0]
  have "go_count (emitted (fresh 0) (snd (staging_work 1 (hw_reply 0xffffffff) 0 mem0 0 (fresh 0)))) =
      xact (snd (staging_work 1 (hw_reply 0xffffffff) 0 mem0 0 (fresh 0))) - xact (fresh 0)"
    by (rule go_count_emitted [OF extends_staging_work])
  with w show ?thesis by (simp add: chunk_count_def)
qed

text \<open>
  From \<open>2^31\<close> bytes on, \<open>2 * totalsize\<close> itself wraps: for a payload of exactly \<open>2^31\<close>
  bytes the budget is \<open>0\<close>, and the transfer fails with a timeout before its first request,
  whatever the device would answer.
\<close>

lemma staging_work_double_wraps:
  assumes "ioremap_ok hw pa 16"
  shows "fst (staging_work (Suc n) hw pa mem 0x80000000 st) = Some False \<and>
     go_count (emitted st (snd (staging_work (Suc n) hw pa mem 0x80000000 st))) = 0"
proof -
  have l: "staging_loop (Suc n) hw mem 0x80000000 \<lparr>xaction_bytes = 0, offset = 0, state = None\<rparr> s =
      (True, \<lparr>xaction_bytes = 0, offset = 0, state = Some UCODE_TIMEOUT\<rparr>,
       WARN_ON_ONCE Warn_offset False s)" for s
    unfolding staging_loop_Suc Let_def
    by (simp add: MBOX_XACTION_MAX_def MBOX_XACTION_LEN_def PAGE_SIZE_def)
  have r: "fst (staging_work (Suc n) hw pa mem 0x80000000 st) = Some False"
    and x: "xact (snd (staging_work (Suc n) hw pa mem 0x80000000 st)) = xact st"
    unfolding staging_work_unfold Let_def l using assms by simp_all
  have "go_count (emitted st (snd (staging_work (Suc n) hw pa mem 0x80000000 st))) =
      xact (snd (staging_work (Suc n) hw pa mem 0x80000000 st)) - xact st"
    by (rule go_count_emitted [OF extends_staging_work])
  with r x show ?thesis by simp
qed

subsection \<open>Where the byte budget does hold\<close>

lemma chunksize_bound: "unat (min MBOX_XACTION_LEN d) \<le> 4096" for d :: u32
proof -
  have "min MBOX_XACTION_LEN d \<le> 4096"
    by (simp add: MBOX_XACTION_LEN_def PAGE_SIZE_def)
  then show ?thesis by (simp add: word_le_nat_alt)
qed

lemma budget_sum:
  fixes xb cs mx :: u32
  assumes "unat mx + 4096 < 2 ^ 32" and "unat xb \<le> unat mx" and "unat cs \<le> 4096"
  shows "unat (xb + cs) = unat xb + unat cs"
proof -
  have "unat xb + unat cs < 2 ^ LENGTH(32)" using assms by simp
  then show ?thesis by (simp only: unat_add_lem)
qed

text \<open>
  When \<open>2 * totalsize\<close> (as computed, in 32 bits) leaves room for one more page below
  \<open>2^32\<close>, the sums of the budget test cannot wrap: \<open>xaction_bytes\<close> stays within the
  budget, and so do the payload bytes written to the device (all writes to the write-data
  register but the four header words of each request).
\<close>

lemma staging_loop_budget:
  assumes nowrap: "unat (MBOX_XACTION_MAX ts) + 4096 < 2 ^ 32"
  shows "unat (xaction_bytes v) \<le> unat (MBOX_XACTION_MAX ts) \<Longrightarrow>
     staging_loop n hw mem ts v st = (left, v', st') \<Longrightarrow>
     unat (xaction_bytes v') \<le> unat (MBOX_XACTION_MAX ts) \<and>
     4 * wrdata_count (trace st') + 16 * xact st + unat (xaction_bytes v)
       \<le> 4 * wrdata_count (trace st) + 16 * xact st' + unat (MBOX_XACTION_MAX ts)"
proof (induction n arbitrary: v st)
  case 0
  then show ?case by auto
next
  case (Suc n)
  define cs where "cs = min MBOX_XACTION_LEN (ts - offset v)"
  define st1 where "st1 = WARN_ON_ONCE Warn_offset (ts < offset v) st"
  define st2 where "st2 = request_xaction (chunk_at mem (offset v)) cs st1"
  define w where "w = wait_for_xaction hw st2"
  define r where "r = read_xaction_response hw (snd w)"
  define v2 where "v2 = \<lparr>xaction_bytes = xaction_bytes v + cs, offset = fst (snd r),
                            state = Some (fst r)\<rparr>"
  have c4: "unat cs \<le> 4096" unfolding cs_def by (rule chunksize_bound)
  have sum: "unat (xaction_bytes v + cs) = unat (xaction_bytes v) + unat cs"
    by (rule budget_sum [OF nowrap Suc.prems(1) c4])
  have w2: "wrdata_count (trace st2) = wrdata_count (trace st) + 4 + unat cs div 4"
    and x2: "xact st2 = Suc (xact st)"
    by (simp_all add: st2_def st1_def wrdata_count_request_xaction)
  have ww: "wrdata_count (trace (snd w)) = wrdata_count (trace st) + 4 + unat cs div 4"
    and xw: "xact (snd w) = Suc (xact st)"
    by (simp_all add: w_def wrdata_count_wait_for_xaction w2 x2)
  have wr: "wrdata_count (trace (snd (snd r))) = wrdata_count (trace st) + 4 + unat cs div 4"
    and xr: "xact (snd (snd r)) = Suc (xact st)"
    by (simp_all add: r_def wrdata_count_read_xaction_response ww xw)
  note step = Suc.prems(2) [unfolded staging_loop_Suc Let_def, folded cs_def st1_def,
      folded st2_def, folded w_def, folded r_def, folded v2_def]
  consider (atend) "offset v = STAGING_OFFSET_END"
    | (budget) "offset v \<noteq> STAGING_OFFSET_END" "MBOX_XACTION_MAX ts < xaction_bytes v + cs"
    | (wait) "offset v \<noteq> STAGING_OFFSET_END" "\<not> MBOX_XACTION_MAX ts < xaction_bytes v + cs"
        "fst w \<noteq> UCODE_OK"
    | (resp) "offset v \<noteq> STAGING_OFFSET_END" "\<not> MBOX_XACTION_MAX ts < xaction_bytes v + cs"
        "fst w = UCODE_OK" "fst r \<noteq> UCODE_OK"
    | (cont) "offset v \<noteq> STAGING_OFFSET_END" "\<not> MBOX_XACTION_MAX ts < xaction_bytes v + cs"
        "fst w = UCODE_OK" "fst r = UCODE_OK"
    by blast
  then show ?case
  proof cases
    case atend
    with step Suc.prems(1) show ?thesis by auto
  next
    case budget
    with step Suc.prems(1) show ?thesis by (auto simp: st1_def)
  next
    case wait
    from wait(2) have le: "unat (xaction_bytes v) + unat cs \<le> unat (MBOX_XACTION_MAX ts)"
      by (simp add: word_less_nat_alt sum)
    from wait step have "v' = v\<lparr>state := Some (fst w)\<rparr>" and "st' = snd w" by simp_all
    with le Suc.prems(1) ww xw show ?thesis by simp
  next
    case resp
    from resp(2) have le: "unat (xaction_bytes v) + unat cs \<le> unat (MBOX_XACTION_MAX ts)"
      by (simp add: word_less_nat_alt sum)
    from resp step have "v' = v2" and "st' = snd (snd r)" by simp_all
    with le wr xr sum show ?thesis by (simp add: v2_def)
  next
    case cont
    from cont(2) have le: "unat (xaction_bytes v) + unat cs \<le> unat (MBOX_XACTION_MAX ts)"
      by (simp add: word_less_nat_alt sum)
    from cont step have run: "staging_loop n hw mem ts v2 (snd (snd r)) = (left, v', st')"
      by simp
    have inv2: "unat (xaction_bytes v2) \<le> unat (MBOX_XACTION_MAX ts)"
      using le sum by (simp add: v2_def)
    have xb2: "unat (xaction_bytes v2) = unat (xaction_bytes v) + unat cs"
      using sum by (simp add: v2_def)
    define q where "q = unat cs div 4"
    have d4: "4 * q \<le> unat cs" by (simp add: q_def)
    note ih = Suc.IH [OF inv2 run, unfolded wr xr xb2, folded q_def]
    from ih have i1: "unat (xaction_bytes v') \<le> unat (MBOX_XACTION_MAX ts)"
      and i2: "4 * wrdata_count (trace st') + 16 * Suc (xact st) +
          (unat (xaction_bytes v) + unat cs)
        \<le> 4 * (wrdata_count (trace st) + 4 + q) + 16 * xact st' +
          unat (MBOX_XACTION_MAX ts)"
      by blast+
    from i2 d4
    have "4 * wrdata_count (trace st') + 16 * xact st + unat (xaction_bytes v)
       \<le> 4 * wrdata_count (trace st) + 16 * xact st' + unat (MBOX_XACTION_MAX ts)"
      by simp
    with i1 show ?thesis by blast
  qed
qed

lemma MBOX_XACTION_MAX_le: "unat (MBOX_XACTION_MAX ts) \<le> 2 * unat ts"
proof -
  have "unat (ts * 2) = (unat ts * 2) mod 2 ^ 32"
    by (simp add: unat_word_ariths)
  also have "\<dots> \<le> unat ts * 2" by (rule mod_less_eq_dividend)
  finally show ?thesis by (simp add: MBOX_XACTION_MAX_def)
qed

lemma staging_work_budget:
  assumes nowrap: "unat (MBOX_XACTION_MAX ts) + 4096 < 2 ^ 32"
  shows "4 * wrdata_count (emitted st (snd (staging_work n hw pa mem ts st)))
     \<le> 16 * go_count (emitted st (snd (staging_work n hw pa mem ts st))) + 2 * unat ts"
proof -
  let ?st' = "snd (staging_work n hw pa mem ts st)"
  note e = extends_staging_work [of st n hw pa mem ts]
  have tr: "trace ?st' = trace st @ emitted st ?st'"
    and xa: "xact ?st' = xact st + go_count (emitted st ?st')"
    using extendsD [OF e] by simp_all
  define st0 where "st0 = abort_xaction (st\<lparr>trace := trace st @ [Ioremap pa 16 True]\<rparr>)"
  define v0 where "v0 = \<lparr>xaction_bytes = 0, offset = 0, state = None\<rparr>"
  obtain left v' st1 where l: "staging_loop n hw mem ts v0 st0 = (left, v', st1)"
    by (cases "staging_loop n hw mem ts v0 st0") blast
  have "unat (xaction_bytes v0) \<le> unat (MBOX_XACTION_MAX ts)" by (simp add: v0_def)
  from staging_loop_budget [OF nowrap this l]
  have b: "4 * wrdata_count (trace st1) + 16 * xact st
       \<le> 4 * wrdata_count (trace st) + 16 * xact st1 + unat (MBOX_XACTION_MAX ts)"
    by (simp add: st0_def v0_def)
  have "wrdata_count (trace ?st') = wrdata_count (trace st1) \<and> xact ?st' = xact st1 \<or>
        wrdata_count (trace ?st') = wrdata_count (trace st) \<and> xact ?st' = xact st"
    unfolding staging_work_unfold Let_def st0_def [symmetric] v0_def [symmetric] l
    by simp
  with b have "4 * wrdata_count (trace ?st') + 16 * xact st
       \<le> 4 * wrdata_count (trace st) + 16 * xact ?st' + unat (MBOX_XACTION_MAX ts)"
    by auto
  then have "4 * wrdata_count (emitted st ?st')
       \<le> 16 * go_count (emitted st ?st') + unat (MBOX_XACTION_MAX ts)"
    unfolding tr xa by simp
  with MBOX_XACTION_MAX_le [of ts] show ?thesis by linarith
qed

subsection \<open>Where the loop does terminate\<close>

text \<open>
  When the sums cannot wrap and the device never reports the payload size itself as next
  offset (so that no chunk is empty), every iteration that goes on adds at least one byte to
  \<open>xaction_bytes\<close>, and the loop is left within \<open>2 * totalsize + 1\<close> iterations.
\<close>

lemma staging_loop_terminates:
  assumes nowrap: "unat (MBOX_XACTION_MAX ts) + 4096 < 2 ^ 32"
    and progress: "\<forall>k. rddata_reads hw k 2 \<noteq> ts"
  shows "offset v \<noteq> ts \<Longrightarrow> unat (xaction_bytes v) \<le> unat (MBOX_XACTION_MAX ts) \<Longrightarrow>
     unat (MBOX_XACTION_MAX ts) - unat (xaction_bytes v) < n \<Longrightarrow>
     fst (staging_loop n hw mem ts v st)"
proof (induction n arbitrary: v st)
  case 0
  then show ?case by simp
next
  case (Suc n)
  define cs where "cs = min MBOX_XACTION_LEN (ts - offset v)"
  define st1 where "st1 = WARN_ON_ONCE Warn_offset (ts < offset v) st"
  define w where "w = wait_for_xaction hw (request_xaction (chunk_at mem (offset v)) cs st1)"
  define r where "r = read_xaction_response hw (snd w)"
  define v2 where "v2 = \<lparr>xaction_bytes = xaction_bytes v + cs, offset = fst (snd r),
                            state = Some (fst r)\<rparr>"
  have c4: "unat cs \<le> 4096" unfolding cs_def by (rule chunksize_bound)
  have sum: "unat (xaction_bytes v + cs) = unat (xaction_bytes v) + unat cs"
    by (rule budget_sum [OF nowrap Suc.prems(2) c4])
  have "ts - offset v \<noteq> 0" using Suc.prems(1) by simp
  then have "cs \<noteq> 0"
    by (simp add: cs_def MBOX_XACTION_LEN_def PAGE_SIZE_def min_def)
  then have c1: "0 < unat cs" by (simp add: unat_gt_0)
  have "rds (snd w) = 0" by (simp add: w_def)
  then have "offset v2 = rddata_reads hw (xact (snd w)) 2"
    by (simp add: v2_def r_def numeral_2_eq_2)
  with progress have o2: "offset v2 \<noteq> ts" by simp
  show ?case
  proof (cases "offset v \<noteq> STAGING_OFFSET_END \<and>
      \<not> MBOX_XACTION_MAX ts < xaction_bytes v + cs \<and> fst w = UCODE_OK \<and> fst r = UCODE_OK")
    case True
    then have le: "unat (xaction_bytes v) + unat cs \<le> unat (MBOX_XACTION_MAX ts)"
      by (simp add: word_less_nat_alt sum)
    have inv2: "unat (xaction_bytes v2) \<le> unat (MBOX_XACTION_MAX ts)"
      using le sum by (simp add: v2_def)
    have fuel: "unat (MBOX_XACTION_MAX ts) - unat (xaction_bytes v2) < n"
      using Suc.prems(3) le sum c1 by (simp add: v2_def)
    have "staging_loop (Suc n) hw mem ts v st = staging_loop n hw mem ts v2 (snd (snd r))"
      unfolding staging_loop_Suc Let_def cs_def [symmetric] st1_def [symmetric]
        w_def [symmetric] r_def [symmetric] v2_def [symmetric]
      using True by simp
    with Suc.IH [OF o2 inv2 fuel] show ?thesis by simp
  next
    case False
    then show ?thesis
      unfolding staging_loop_Suc Let_def cs_def [symmetric] st1_def [symmetric]
        w_def [symmetric] r_def [symmetric] v2_def [symmetric]
      by auto
  qed
qed

lemma staging_work_terminates:
  assumes nowrap: "unat (MBOX_XACTION_MAX ts) + 4096 < 2 ^ 32"
    and progress: "\<forall>k. rddata_reads hw k 2 \<noteq> ts"
    and nonempty: "ts \<noteq> 0"
  shows "\<exists>b. fst (staging_work (Suc (unat (MBOX_XACTION_MAX ts))) hw pa mem ts st) = Some b"
proof -
  have "fst (staging_loop (Suc (unat (MBOX_XACTION_MAX ts))) hw mem ts
          \<lparr>xaction_bytes = 0, offset = 0, state = None\<rparr> s)" for s
    by (rule staging_loop_terminates [OF nowrap progress]) (use nonempty in simp_all)
  then show ?thesis
    unfolding staging_work_unfold Let_def by auto
qed

end
